theory Spec2Isabelle
  imports Main "HOL-Library.AList"
begin

section \<open>Python values\<close>

text \<open>
  Specs are read from YAML and schemas from JSON, so the values the translator handles
  are trees of \<open>None\<close>, booleans, integers, strings, lists and dictionaries with string
  keys. A dictionary is an association list in insertion order with pairwise distinct
  keys. Floats are left out: no operation of the translator looks at one.
\<close>

datatype pyval =
    PNone
  | PBool bool
  | PInt int
  | PStr string
  | PList "pyval list"
  | PDict "(string \<times> pyval) list"

text \<open>Python's truth value of an object, as used by \<open>if x:\<close> and \<open>x if c else y\<close>.\<close>

fun truthy :: "pyval \<Rightarrow> bool" where
  "truthy PNone = False"
| "truthy (PBool b) = b"
| "truthy (PInt i) = (i \<noteq> 0)"
| "truthy (PStr s) = (s \<noteq> [])"
| "truthy (PList xs) = (xs \<noteq> [])"
| "truthy (PDict d) = (d \<noteq> [])"

text \<open>
  Python's \<open>==\<close> on these values: \<open>True == 1\<close> and \<open>False == 0\<close>, lists are compared
  elementwise and dictionaries regardless of the order of their keys.
\<close>

fun py_eq :: "pyval \<Rightarrow> pyval \<Rightarrow> bool"
  and py_eq_list :: "pyval list \<Rightarrow> pyval list \<Rightarrow> bool"
  and py_eq_items :: "(string \<times> pyval) list \<Rightarrow> (string \<times> pyval) list \<Rightarrow> bool" where
  "py_eq PNone y = (y = PNone)"
| "py_eq (PBool a) y =
     (case y of PBool b \<Rightarrow> a = b | PInt j \<Rightarrow> (if a then 1 else 0) = j | _ \<Rightarrow> False)"
| "py_eq (PInt i) y =
     (case y of PInt j \<Rightarrow> i = j | PBool b \<Rightarrow> i = (if b then 1 else 0) | _ \<Rightarrow> False)"
| "py_eq (PStr s) y = (y = PStr s)"
| "py_eq (PList xs) y = (case y of PList ys \<Rightarrow> py_eq_list xs ys | _ \<Rightarrow> False)"
| "py_eq (PDict d) y =
     (case y of PDict e \<Rightarrow> length d = length e \<and> py_eq_items d e | _ \<Rightarrow> False)"
| "py_eq_list [] ys = (ys = [])"
| "py_eq_list (x # xs) ys =
     (case ys of [] \<Rightarrow> False | y # ys' \<Rightarrow> py_eq x y \<and> py_eq_list xs ys')"
| "py_eq_items [] e = True"
| "py_eq_items (kv # d) e =
     ((case map_of e (fst kv) of None \<Rightarrow> False | Some w \<Rightarrow> py_eq (snd kv) w)
      \<and> py_eq_items d e)"

text \<open>\<open>d[k]\<close> raises \<open>KeyError\<close> on a missing key, \<open>d.get(k)\<close> returns \<open>None\<close>.\<close>

datatype reason = UnknownRuleType | MalformedRuleField | NameMismatch | NotFound | IdNotSet

datatype error =
    KeyError string
  | TypeError
  | AttributeError
  | RuntimeError reason

definition dget :: "(string \<times> pyval) list \<Rightarrow> string \<Rightarrow> pyval" where
  "dget d k = (case map_of d k of None \<Rightarrow> PNone | Some v \<Rightarrow> v)"

definition dsub :: "(string \<times> pyval) list \<Rightarrow> string \<Rightarrow> error + pyval" where
  "dsub d k = (case map_of d k of None \<Rightarrow> Inl (KeyError k) | Some v \<Rightarrow> Inr v)"

definition dset :: "(string \<times> pyval) list \<Rightarrow> string \<Rightarrow> pyval \<Rightarrow> (string \<times> pyval) list" where
  "dset d k v = AList.update k v d"

definition ddel :: "(string \<times> pyval) list \<Rightarrow> string \<Rightarrow> (string \<times> pyval) list" where
  "ddel d k = AList.delete k d"

text \<open>\<open>str.lower()\<close> on ASCII text.\<close>

definition lower_char :: "char \<Rightarrow> char" where
  "lower_char c =
     (let n = (of_char c :: nat) in if 65 \<le> n \<and> n \<le> 90 then char_of (n + 32) else c)"

definition lower :: "string \<Rightarrow> string" where
  "lower s = map lower_char s"

text \<open>\<open>str(n)\<close> of an integer: decimal digits, with a leading minus sign below zero.\<close>

definition digit_char :: "nat \<Rightarrow> char" where
  "digit_char d = char_of (48 + d)"

fun digits :: "nat \<Rightarrow> string" where
  "digits n = (if n < 10 then [digit_char n] else digits (n div 10) @ [digit_char (n mod 10)])"

definition str_int :: "int \<Rightarrow> string" where
  "str_int i = (if i < 0 then CHR ''-'' # digits (nat (- i)) else digits (nat i))"

text \<open>\<open>str\<close> of an integer is injective: the digits are read back by \<open>digits_val\<close>.\<close>

declare digits.simps [simp del]

lemma of_char_digit_char: "d < 10 \<Longrightarrow> (of_char (digit_char d) :: nat) = 48 + d"
  by (simp add: digit_char_def)

definition digits_val :: "string \<Rightarrow> nat" where
  "digits_val s = foldl (\<lambda>a c. 10 * a + (of_char c - 48)) 0 s"

lemma digits_val_digits: "digits_val (digits n) = n"
proof (induction n rule: digits.induct)
  case (1 n)
  show ?case
  proof (cases "n < 10")
    case True
    then show ?thesis
      by (subst digits.simps) (simp add: digits_val_def of_char_digit_char)
  next
    case False
    with 1 have "digits_val (digits (n div 10)) = n div 10" by simp
    with False show ?thesis
      by (subst digits.simps) (simp add: digits_val_def of_char_digit_char)
  qed
qed

lemma digits_inj: "digits m = digits n \<Longrightarrow> m = n"
  by (metis digits_val_digits)

lemma digits_range: "c \<in> set (digits n) \<Longrightarrow> 48 \<le> (of_char c :: nat) \<and> (of_char c :: nat) \<le> 57"
proof (induction n rule: digits.induct)
  case (1 n)
  show ?case
  proof (cases "n < 10")
    case True
    with 1(2) show ?thesis
      by (subst (asm) digits.simps) (simp add: of_char_digit_char)
  next
    case False
    with 1 show ?thesis
      by (subst (asm) (2) digits.simps) (auto simp add: of_char_digit_char)
  qed
qed

lemma digits_nonempty: "digits n \<noteq> []"
  by (subst digits.simps) simp

lemma digits_no_minus: "CHR ''-'' \<notin> set (digits n)"
  using digits_range [of "CHR ''-''" n] by auto

lemma str_int_inj: "str_int i = str_int j \<Longrightarrow> i = j"
proof -
  assume h: "str_int i = str_int j"
  have hd_dig: "\<And>n. hd (digits n) \<noteq> CHR ''-''"
    by (metis digits_no_minus digits_nonempty hd_in_set)
  show ?thesis
  proof (cases "i < 0")
    case True
    show ?thesis
    proof (cases "j < 0")
      case True
      with \<open>i < 0\<close> h have "digits (nat (- i)) = digits (nat (- j))" by (simp add: str_int_def)
      then have "nat (- i) = nat (- j)" by (rule digits_inj)
      with True \<open>i < 0\<close> show ?thesis by simp
    next
      case False
      with \<open>i < 0\<close> h have "CHR ''-'' # digits (nat (- i)) = digits (nat j)" by (simp add: str_int_def)
      then show ?thesis using hd_dig [of "nat j"] by (metis list.sel(1))
    qed
  next
    case False
    show ?thesis
    proof (cases "j < 0")
      case True
      with False h have "digits (nat i) = CHR ''-'' # digits (nat (- j))" by (simp add: str_int_def)
      then show ?thesis using hd_dig [of "nat i"] by (metis list.sel(1))
    next
      case jn: False
      with False h have "digits (nat i) = digits (nat j)" by (simp add: str_int_def)
      then have "nat i = nat j" by (rule digits_inj)
      with False jn show ?thesis by simp
    qed
  qed
qed

section \<open>Schema and perspective\<close>

text \<open>
  The items of a constant, the constants and the schema are dictionaries with fixed keys;
  \<open>is_other\<close> is the one key the code reads with \<open>get\<close>, so it is optional. Rules are
  dictionaries whose keys depend on the rule, and the rule objects of a spec are mutated
  in place and shared with the schema, so a rule is an address into a store of objects.
\<close>

record item =
  i_ref_id :: string
  i_name :: pyval
  i_is_other :: "pyval option"

record constant_group =
  c_type :: string
  c_list :: "item list"

type_synonym addr = nat

type_synonym store = "addr \<Rightarrow> pyval"

record schema =
  s_name :: pyval
  s_merges :: pyval
  s_constants :: "constant_group list"
  s_include_in_reports :: pyval
  s_rules :: "addr list"

record perspective =
  new_ref_id :: int
  p_schema :: schema

definition single_item_list_keys :: "string list" where
  "single_item_list_keys = [''field'', ''tag_field'']"

definition constant_types :: "string list" where
  "constant_types = [''Static Group'', ''Dynamic Group Block'']"

text \<open>\<open>Perspective.__init__\<close> without a perspective id: the default empty schema.\<close>

definition empty_schema :: schema where
  "empty_schema =
     \<lparr> s_name = PStr ''EMPTY'',
       s_merges = PList [],
       s_constants =
         [\<lparr> c_type = ''Static Group'',
            c_list = [\<lparr> i_ref_id = ''1234567890'', i_name = PStr ''Other'',
                        i_is_other = Some (PStr ''true'') \<rparr>] \<rparr>],
       s_include_in_reports = PStr ''true'',
       s_rules = [] \<rparr>"

definition init :: perspective where
  "init = \<lparr> new_ref_id = 100, p_schema = empty_schema \<rparr>"

section \<open>Identifier allocation\<close>

text \<open>
  The ref_ids of the constants of type \<open>Static Group\<close> and \<open>Dynamic Group Block\<close>, as
  \<open>_get_new_ref_id\<close> collects them on every round of its loop.
\<close>

definition existing_ref_ids :: "schema \<Rightarrow> string list" where
  "existing_ref_ids s =
     concat (map (\<lambda>c. map i_ref_id (c_list c))
       (filter (\<lambda>c. c_type c \<in> set constant_types) (s_constants s)))"

lemma finite_taken: "finite ids \<Longrightarrow> finite {k. n < k \<and> str_int k \<in> ids}"
proof -
  assume "finite ids"
  then have "finite (str_int -` ids)"
    by (rule finite_vimageI) (rule injI, rule str_int_inj)
  moreover have "{k. n < k \<and> str_int k \<in> ids} \<subseteq> str_int -` ids"
    by (rule subsetI) simp
  ultimately show ?thesis
    by (rule rev_finite_subset)
qed

lemma taken_decreases:
  fixes n :: int
  assumes fin: "finite ids" and mem: "str_int (n + 1) \<in> ids"
  shows "card {k. n + 1 < k \<and> str_int k \<in> ids} < card {k. n < k \<and> str_int k \<in> ids}"
proof (rule psubset_card_mono)
  show "finite {k. n < k \<and> str_int k \<in> ids}"
    using fin by (rule finite_taken)
  have "n + 1 \<in> {k. n < k \<and> str_int k \<in> ids}"
    using mem by simp
  moreover have "n + 1 \<notin> {k. n + 1 < k \<and> str_int k \<in> ids}"
    by simp
  moreover have "{k. n + 1 < k \<and> str_int k \<in> ids} \<subseteq> {k. n < k \<and> str_int k \<in> ids}"
    by (rule Collect_mono) simp
  ultimately show "{k. n + 1 < k \<and> str_int k \<in> ids} \<subset> {k. n < k \<and> str_int k \<in> ids}"
    by blast
qed

text \<open>
  \<open>_get_new_ref_id\<close>: \<open>while True\<close>, increment the counter and stop at the first value
  whose decimal string is no ref_id of the schema. The loop ends because only finitely
  many counter values are taken.
\<close>

function get_new_ref_id :: "perspective \<Rightarrow> string \<times> perspective" where
  "get_new_ref_id p =
     (if str_int (new_ref_id p + 1) \<notin> set (existing_ref_ids (p_schema p))
      then (str_int (new_ref_id p + 1), p\<lparr>new_ref_id := new_ref_id p + 1\<rparr>)
      else get_new_ref_id (p\<lparr>new_ref_id := new_ref_id p + 1\<rparr>))"
  by pat_completeness auto
termination
  apply (relation "measure (\<lambda>p. card {k. new_ref_id p < k
                    \<and> str_int k \<in> set (existing_ref_ids (p_schema p))})")
   apply simp
  apply (simp add: taken_decreases)
  done

declare get_new_ref_id.simps [simp del]



section \<open>Constant registry\<close>

text \<open>
  \<open>_get_name_by_ref_id\<close> and \<open>_get_ref_id_by_name\<close>: the first item, in the order of the
  constants of the two types and of their lists, that matches and whose \<open>is_other\<close> is
  absent or falsy; \<open>None\<close> when there is none.
\<close>

definition is_other :: "item \<Rightarrow> bool" where
  "is_other i = (case i_is_other i of None \<Rightarrow> False | Some v \<Rightarrow> truthy v)"

definition group_items :: "schema \<Rightarrow> item list" where
  "group_items s =
     concat (map c_list (filter (\<lambda>c. c_type c \<in> set constant_types) (s_constants s)))"

definition get_name_by_ref_id :: "perspective \<Rightarrow> pyval \<Rightarrow> pyval" where
  "get_name_by_ref_id p ref_id =
     (case find (\<lambda>i. py_eq (PStr (i_ref_id i)) ref_id \<and> \<not> is_other i)
             (group_items (p_schema p)) of
        Some i \<Rightarrow> i_name i
      | None \<Rightarrow> PNone)"

definition get_ref_id_by_name :: "perspective \<Rightarrow> pyval \<Rightarrow> string option" where
  "get_ref_id_by_name p constant_name =
     (case find (\<lambda>i. py_eq (i_name i) constant_name \<and> \<not> is_other i)
             (group_items (p_schema p)) of
        Some i \<Rightarrow> Some (i_ref_id i)
      | None \<Rightarrow> None)"

text \<open>
  \<open>_add_constant\<close>: the ref_id of the existing group when the lookup gives a truthy one;
  otherwise (\<open>create_constant\<close>, the \<open>else\<close> branch) a new group with a fresh ref_id is
  appended to the first constant of the type, which is created at the end of the
  constants when there is none.
\<close>

fun append_group :: "string \<Rightarrow> item \<Rightarrow> constant_group list \<Rightarrow> constant_group list" where
  "append_group constant_type g [] = []"
| "append_group constant_type g (c # cs) =
     (if c_type c = constant_type then c\<lparr>c_list := c_list c @ [g]\<rparr> # cs
      else c # append_group constant_type g cs)"

definition with_constant :: "string \<Rightarrow> constant_group list \<Rightarrow> constant_group list" where
  "with_constant constant_type cs =
     (if \<exists>c \<in> set cs. c_type c = constant_type then cs
      else cs @ [\<lparr>c_type = constant_type, c_list = []\<rparr>])"

definition set_constants :: "constant_group list \<Rightarrow> perspective \<Rightarrow> perspective" where
  "set_constants cs p = p\<lparr>p_schema := (p_schema p)\<lparr>s_constants := cs\<rparr>\<rparr>"

definition create_constant :: "pyval \<Rightarrow> string \<Rightarrow> perspective \<Rightarrow> string \<times> perspective" where
  "create_constant constant_name constant_type p =
     (let p1 = set_constants (with_constant constant_type (s_constants (p_schema p))) p;
          (ref_id, p2) = get_new_ref_id p1;
          new_group = \<lparr>i_ref_id = ref_id, i_name = constant_name, i_is_other = None\<rparr>
      in (ref_id,
          set_constants (append_group constant_type new_group (s_constants (p_schema p2))) p2))"

definition add_constant :: "pyval \<Rightarrow> string \<Rightarrow> perspective \<Rightarrow> string \<times> perspective" where
  "add_constant constant_name constant_type p =
     (case get_ref_id_by_name p constant_name of
        Some ref_id \<Rightarrow>
          if ref_id \<noteq> [] then (ref_id, p) else create_constant constant_name constant_type p
      | None \<Rightarrow> create_constant constant_name constant_type p)"

section \<open>Rule normalisation\<close>

text \<open>
  The two loops over \<open>rule.items()\<close> and \<open>clause.items()\<close>. Towards the schema a value
  of a key in \<open>_single_item_list_keys\<close> whose type is \<open>str\<close> is wrapped into a list of
  one element. Towards the spec a value of such a key whose type is \<open>list\<close> must have
  exactly one element, which replaces it; any other length raises.
\<close>

definition to_list_items :: "(string \<times> pyval) list \<Rightarrow> (string \<times> pyval) list" where
  "to_list_items d =
     map (\<lambda>(k, v). case v of
                     PStr x \<Rightarrow> if k \<in> set single_item_list_keys then (k, PList [v]) else (k, v)
                   | _ \<Rightarrow> (k, v)) d"

fun from_list_items :: "(string \<times> pyval) list \<Rightarrow> error + (string \<times> pyval) list" where
  "from_list_items [] = Inr []"
| "from_list_items ((k, v) # kvs) =
     (case v of
        PList xs \<Rightarrow>
          if k \<in> set single_item_list_keys then
            (if length xs \<noteq> 1 then Inl (RuntimeError MalformedRuleField)
             else (case from_list_items kvs of
                     Inl e \<Rightarrow> Inl e
                   | Inr r \<Rightarrow> Inr ((k, xs ! 0) # r)))
          else (case from_list_items kvs of Inl e \<Rightarrow> Inl e | Inr r \<Rightarrow> Inr ((k, v) # r))
      | _ \<Rightarrow> (case from_list_items kvs of Inl e \<Rightarrow> Inl e | Inr r \<Rightarrow> Inr ((k, v) # r)))"

text \<open>
  \<open>for clause in rule['condition']['clauses']\<close>, run when \<open>rule.get('condition')\<close> is
  truthy. Every clause must be a dictionary (\<open>clause.items()\<close>); the clauses are
  changed in place, so the rule keeps its keys in their order. Iterating over a string
  or a dictionary yields strings, which have no \<open>items\<close>.
\<close>

fun each_clause ::
  "((string \<times> pyval) list \<Rightarrow> error + (string \<times> pyval) list) \<Rightarrow> pyval list \<Rightarrow> error + pyval list" where
  "each_clause f [] = Inr []"
| "each_clause f (c # cs) =
     (case c of
        PDict d \<Rightarrow>
          (case f d of
             Inl e \<Rightarrow> Inl e
           | Inr d' \<Rightarrow>
               (case each_clause f cs of Inl e \<Rightarrow> Inl e | Inr cs' \<Rightarrow> Inr (PDict d' # cs')))
      | _ \<Rightarrow> Inl AttributeError)"

definition over_condition ::
  "((string \<times> pyval) list \<Rightarrow> error + (string \<times> pyval) list) \<Rightarrow>
     (string \<times> pyval) list \<Rightarrow> error + (string \<times> pyval) list" where
  "over_condition f rule =
     (if \<not> truthy (dget rule ''condition'') then Inr rule
      else case dget rule ''condition'' of
        PDict cond \<Rightarrow>
          (case map_of cond ''clauses'' of
             None \<Rightarrow> Inl (KeyError ''clauses'')
           | Some (PList cs) \<Rightarrow>
               (case each_clause f cs of
                  Inl e \<Rightarrow> Inl e
                | Inr cs' \<Rightarrow>
                    Inr (dset rule ''condition'' (PDict (dset cond ''clauses'' (PList cs')))))
           | Some (PStr x) \<Rightarrow> if x = [] then Inr rule else Inl AttributeError
           | Some (PDict x) \<Rightarrow> if x = [] then Inr rule else Inl AttributeError
           | Some _ \<Rightarrow> Inl TypeError)
      | _ \<Rightarrow> Inl TypeError)"

section \<open>Spec to schema\<close>

text \<open>
  A spec is a dictionary with the keys \<open>name\<close> and \<open>rules\<close> and the optional key
  \<open>include_in_reports\<close>. Its rules are objects in the store.
\<close>

record spec =
  sp_name :: pyval
  sp_include_in_reports :: "pyval option"
  sp_rules :: "addr list"

text \<open>
  Lines 432 to 449 of \<open>_spec_rule_to_schema\<close>: the rule gets the ref_id under \<open>to\<close>,
  or under \<open>ref_id\<close> with \<open>to\<close> deleted for a categorize rule, then the two loops.
\<close>

definition rule_to_schema_form ::
  "string \<Rightarrow> string \<Rightarrow> (string \<times> pyval) list \<Rightarrow> error + (string \<times> pyval) list" where
  "rule_to_schema_form rule_type ref_id rule =
     (let r1 = dset rule ''to'' (PStr ref_id);
          r2 = (if rule_type = ''categorize''
                then ddel (dset r1 ''ref_id'' (dget r1 ''to'')) ''to'' else r1)
      in over_condition (\<lambda>d. Inr (to_list_items d)) (to_list_items r2))"

definition add_rule :: "addr \<Rightarrow> perspective \<Rightarrow> perspective" where
  "add_rule a p = p\<lparr>p_schema := (p_schema p)\<lparr>s_rules := s_rules (p_schema p) @ [a]\<rparr>\<rparr>"

text \<open>
  \<open>_spec_rule_to_schema\<close> on the rule object at address \<open>a\<close>. The object is changed in
  place and then appended to the rules of the schema. What the store and the schema
  hold after a raise is not modelled.
\<close>

definition spec_rule_to_schema ::
  "addr \<Rightarrow> store \<times> perspective \<Rightarrow> error + store \<times> perspective" where
  "spec_rule_to_schema a hp =
     (case fst hp a of
        PDict rule \<Rightarrow>
          (case dsub rule ''to'' of
             Inl e \<Rightarrow> Inl e
           | Inr to_v \<Rightarrow>
          (case (if truthy to_v then Inr to_v else dsub rule ''ref_id'') of
             Inl e \<Rightarrow> Inl e
           | Inr constant_name \<Rightarrow>
          (case dsub rule ''type'' of
             Inl e \<Rightarrow> Inl e
           | Inr (PStr t) \<Rightarrow>
               (let rule_type = lower t in
                if rule_type \<in> set [''filter'', ''search''] then
                  (let (ref_id, p1) = add_constant constant_name ''Static Group'' (snd hp) in
                   case rule_to_schema_form rule_type ref_id (dset rule ''type'' (PStr ''filter'')) of
                     Inl e \<Rightarrow> Inl e
                   | Inr r \<Rightarrow> Inr ((fst hp)(a := PDict r), add_rule a p1))
                else if rule_type = ''categorize'' then
                  (let (ref_id, p1) = add_constant constant_name ''Dynamic Group Block'' (snd hp) in
                   case rule_to_schema_form rule_type ref_id rule of
                     Inl e \<Rightarrow> Inl e
                   | Inr r \<Rightarrow> Inr ((fst hp)(a := PDict r), add_rule a p1))
                else Inl (RuntimeError UnknownRuleType))
           | Inr _ \<Rightarrow> Inl AttributeError)))
      | _ \<Rightarrow> Inl TypeError)"

fun spec_rules_to_schema ::
  "addr list \<Rightarrow> store \<times> perspective \<Rightarrow> error + store \<times> perspective" where
  "spec_rules_to_schema [] hp = Inr hp"
| "spec_rules_to_schema (a # as) hp =
     (case spec_rule_to_schema a hp of
        Inl e \<Rightarrow> Inl e
      | Inr hp' \<Rightarrow> spec_rules_to_schema as hp')"

text \<open>
  \<open>_schema_from_spec\<close>, and the setter of \<open>spec\<close>, which has the same body: the name,
  the flag when \<open>spec.get('include_in_reports')\<close> is truthy, no rules, then each rule
  of the spec in order.
\<close>

definition set_name :: "pyval \<Rightarrow> perspective \<Rightarrow> perspective" where
  "set_name n p = p\<lparr>p_schema := (p_schema p)\<lparr>s_name := n\<rparr>\<rparr>"

definition set_include_in_reports :: "pyval \<Rightarrow> perspective \<Rightarrow> perspective" where
  "set_include_in_reports toggle p = p\<lparr>p_schema := (p_schema p)\<lparr>s_include_in_reports := toggle\<rparr>\<rparr>"

definition set_rules :: "addr list \<Rightarrow> perspective \<Rightarrow> perspective" where
  "set_rules rs p = p\<lparr>p_schema := (p_schema p)\<lparr>s_rules := rs\<rparr>\<rparr>"

definition schema_from_spec ::
  "spec \<Rightarrow> store \<times> perspective \<Rightarrow> error + store \<times> perspective" where
  "schema_from_spec sp hp =
     (let p1 = set_name (sp_name sp) (snd hp);
          p2 = (case sp_include_in_reports sp of
                  None \<Rightarrow> p1
                | Some v \<Rightarrow> if truthy v then set_include_in_reports v p1 else p1);
          p3 = set_rules [] p2
      in spec_rules_to_schema (sp_rules sp) (fst hp, p3))"

section \<open>Schema to spec\<close>

text \<open>
  \<open>_spec_from_schema\<close> works on a deep copy of the schema and rewrites the rules of the
  copy in place, one position of \<open>rules\<close> after the other. \<open>copy.deepcopy\<close> keeps sharing:
  a rule object that stands at two positions of the schema is one object in the copy
  too, and is rewritten twice. So the copy is a store with the addresses of the
  original, and the result is a value: the schema without \<open>merges\<close> and \<open>constants\<close>, with
  the rules read from the copy at the end.
\<close>

record spec_dict =
  sd_name :: pyval
  sd_include_in_reports :: pyval
  sd_rules :: "pyval list"

definition rule_to_spec_form :: "perspective \<Rightarrow> pyval \<Rightarrow> error + pyval" where
  "rule_to_spec_form p r =
     (case r of
        PDict rule \<Rightarrow>
          (let r1 = (if truthy (dget rule ''ref_id'')
                     then ddel (dset rule ''to'' (dget rule ''ref_id'')) ''ref_id'' else rule)
           in case dsub r1 ''to'' of
                Inl e \<Rightarrow> Inl e
              | Inr to_v \<Rightarrow>
                  (case from_list_items (dset r1 ''to'' (get_name_by_ref_id p to_v)) of
                     Inl e \<Rightarrow> Inl e
                   | Inr r3 \<Rightarrow>
                       (case over_condition from_list_items r3 of
                          Inl e \<Rightarrow> Inl e
                        | Inr r4 \<Rightarrow> Inr (PDict r4))))
      | _ \<Rightarrow> Inl AttributeError)"

fun rules_to_spec_form :: "perspective \<Rightarrow> addr list \<Rightarrow> store \<Rightarrow> error + store" where
  "rules_to_spec_form p [] c = Inr c"
| "rules_to_spec_form p (a # as) c =
     (case rule_to_spec_form p (c a) of
        Inl e \<Rightarrow> Inl e
      | Inr r \<Rightarrow> rules_to_spec_form p as (c(a := r)))"

definition spec_from_schema :: "store \<Rightarrow> perspective \<Rightarrow> error + spec_dict" where
  "spec_from_schema h p =
     (case rules_to_spec_form p (s_rules (p_schema p)) h of
        Inl e \<Rightarrow> Inl e
      | Inr c \<Rightarrow>
          Inr \<lparr> sd_name = s_name (p_schema p),
                sd_include_in_reports = s_include_in_reports (p_schema p),
                sd_rules = map c (s_rules (p_schema p)) \<rparr>)"

section \<open>Round trip\<close>

text \<open>
  Applying a spec and deriving a spec from the result. A rule is compared as the tuple
  of its type, its group name, its \<open>field\<close>, its \<open>tag_field\<close> and its condition; the
  group name is the value \<open>_spec_rule_to_schema\<close> reads, \<open>to\<close> when it is truthy and
  \<open>ref_id\<close> otherwise. The round trip holds for a spec whose rules all translate when
  the derivation succeeds with the same set of tuples as the rules the spec had before.
\<close>

definition group_name :: "(string \<times> pyval) list \<Rightarrow> pyval" where
  "group_name d = (if truthy (dget d ''to'') then dget d ''to'' else dget d ''ref_id'')"

definition rule_tuple :: "pyval \<Rightarrow> pyval \<times> pyval \<times> pyval \<times> pyval \<times> pyval" where
  "rule_tuple r =
     (case r of
        PDict d \<Rightarrow> (dget d ''type'', group_name d, dget d ''field'', dget d ''tag_field'',
                    dget d ''condition'')
      | _ \<Rightarrow> (PNone, PNone, PNone, PNone, PNone))"

definition round_trip_holds :: "spec \<Rightarrow> store \<times> perspective \<Rightarrow> bool" where
  "round_trip_holds sp hp =
     (case schema_from_spec sp hp of
        Inl e \<Rightarrow> True
      | Inr hp' \<Rightarrow>
          (case spec_from_schema (fst hp') (snd hp') of
             Inl e \<Rightarrow> False
           | Inr sd \<Rightarrow>
               set (map rule_tuple (sd_rules sd))
                 = set (map rule_tuple (map (fst hp) (sp_rules sp)))))"

section \<open>Client\<close>

text \<open>
  \<open>PerspectiveClient.update\<close> on the perspective that \<open>get\<close> has fetched. The state is
  the schema of the perspective object and the payloads submitted so far; \<open>server\<close> is
  what the store answers to the \<open>get_schema\<close> that follows a \<open>put\<close>. The perspective has
  its id, so \<open>update_cloudhealth\<close> takes its first branch: the schema argument, or the
  schema of the object when there is none, goes out without its constants of type
  \<open>Dynamic Group\<close>.
\<close>

record client_state =
  cs_perspective :: schema
  cs_submitted :: "schema list"

definition update_cloudhealth ::
  "(schema \<Rightarrow> schema) \<Rightarrow> schema option \<Rightarrow> client_state \<Rightarrow> client_state" where
  "update_cloudhealth server schema_arg st =
     (let perspective_schema = (case schema_arg of Some s \<Rightarrow> s | None \<Rightarrow> cs_perspective st);
          schema_data = perspective_schema
            \<lparr>s_constants := filter (\<lambda>c. c_type c \<noteq> ''Dynamic Group'')
                               (s_constants perspective_schema)\<rparr>
      in \<lparr> cs_perspective = server schema_data,
           cs_submitted = cs_submitted st @ [schema_data] \<rparr>)"

text \<open>
  The result is the exception raised, if any, and the state at that moment. An argument
  is \<open>None\<close> or a dictionary with keys, so it is truthy when it is provided.
  \<open>schema.get('name')\<close> on the default \<open>schema=None\<close> raises \<open>AttributeError\<close>, and
  \<open>spec['name']\<close> on \<open>spec=None\<close> raises \<open>TypeError\<close>.
\<close>

definition provided :: "'a option \<Rightarrow> bool" where
  "provided x = (case x of None \<Rightarrow> False | Some y \<Rightarrow> True)"

definition update ::
  "(schema \<Rightarrow> schema) \<Rightarrow> schema \<Rightarrow> schema option \<Rightarrow> spec option \<Rightarrow> error option \<times> client_state" where
  "update server fetched schema_arg spec_arg =
     (let st = \<lparr> cs_perspective = fetched, cs_submitted = [] \<rparr> in
      if py_eq (s_name fetched) (PStr ''Empty'') then (Some (RuntimeError NotFound), st)
      else if provided schema_arg \<or> provided spec_arg then
        (case schema_arg of
           None \<Rightarrow> (Some AttributeError, st)
         | Some s \<Rightarrow>
             (case (if truthy (s_name s) then Inr (s_name s)
                    else (case spec_arg of
                            None \<Rightarrow> Inl TypeError
                          | Some sp \<Rightarrow> Inr (sp_name sp))) of
                Inl e \<Rightarrow> (Some e, st)
              | Inr name \<Rightarrow>
                  if \<not> py_eq (s_name fetched) name then (Some (RuntimeError NameMismatch), st)
                  else (None, update_cloudhealth server schema_arg st)))
      else (None, update_cloudhealth server schema_arg st))"

section \<open>Evaluation on concrete inputs\<close>

lemmas str_eval = str_int_def digits.simps digit_char_def char_of_def bit_Suc_0_iff

lemmas py_eval =
  char_of_def bit_Suc_0_iff lower_def lower_char_def
  dget_def dsub_def dset_def ddel_def single_item_list_keys_def constant_types_def

lemmas translate_defs =
  schema_from_spec_def spec_rule_to_schema_def rule_to_schema_form_def over_condition_def
  to_list_items_def add_rule_def set_name_def set_include_in_reports_def set_rules_def
  add_constant_def create_constant_def get_ref_id_by_name_def group_items_def is_other_def with_constant_def
  set_constants_def existing_ref_ids_def

lemmas derive_defs =
  spec_from_schema_def rule_to_spec_form_def get_name_by_ref_id_def
  rule_tuple_def group_name_def round_trip_holds_def

lemma get_new_ref_id_free:
  "str_int (new_ref_id p + 1) \<notin> set (existing_ref_ids (p_schema p)) \<Longrightarrow>
   get_new_ref_id p = (str_int (new_ref_id p + 1), p\<lparr>new_ref_id := new_ref_id p + 1\<rparr>)"
  by (subst get_new_ref_id.simps) simp

lemma get_new_ref_id_taken:
  "str_int (new_ref_id p + 1) \<in> set (existing_ref_ids (p_schema p)) \<Longrightarrow>
   get_new_ref_id p = get_new_ref_id (p\<lparr>new_ref_id := new_ref_id p + 1\<rparr>)"
  by (subst get_new_ref_id.simps) simp

lemma str_int_101: "str_int 101 = ''101''"
  by (simp add: str_eval)

lemma str_int_102: "str_int 102 = ''102''"
  by (simp add: str_eval)

section \<open>Scenario A\<close>

definition scenario_a_store :: store where
  "scenario_a_store =
     (\<lambda>_. PNone)(0 := PDict [(''type'', PStr ''filter''), (''field'', PStr ''env''),
                               (''to'', PStr ''prod'')])"

definition scenario_a_spec :: spec where
  "scenario_a_spec = \<lparr> sp_name = PStr ''Env'', sp_include_in_reports = None, sp_rules = [0] \<rparr>"

text \<open>
  C5. Applying the spec named Env with the one rule \<open>{type: filter, field: env, to: prod}\<close>
  to the default empty schema gives a schema whose Static Group constant holds the
  Other item and the one new item with ref_id 101 and name prod, and whose rules are
  the one rule \<open>{type: filter, field: [env], to: 101}\<close>, the rule object of the spec.
\<close>

theorem scenario_a:
  "schema_from_spec scenario_a_spec (scenario_a_store, init) =
     Inr (scenario_a_store(0 := PDict [(''type'', PStr ''filter''),
                                       (''field'', PList [PStr ''env'']),
                                       (''to'', PStr ''101'')]),
          \<lparr> new_ref_id = 101,
            p_schema =
              \<lparr> s_name = PStr ''Env'',
                s_merges = PList [],
                s_constants =
                  [\<lparr> c_type = ''Static Group'',
                     c_list = [\<lparr> i_ref_id = ''1234567890'', i_name = PStr ''Other'',
                                 i_is_other = Some (PStr ''true'') \<rparr>,
                               \<lparr> i_ref_id = ''101'', i_name = PStr ''prod'',
                                 i_is_other = None \<rparr>] \<rparr>],
                s_include_in_reports = PStr ''true'',
                s_rules = [0] \<rparr> \<rparr>)"
  by (simp add: scenario_a_spec_def scenario_a_store_def init_def empty_schema_def
        translate_defs get_new_ref_id_free str_int_101 py_eval)

section \<open>The flag of a spec\<close>

text \<open>
  C7. A spec that sets \<open>include_in_reports\<close> to \<open>False\<close>, applied to the default schema
  whose flag is \<open>'true'\<close>: the guard \<open>spec.get('include_in_reports')\<close> is falsy, so the
  flag of the schema stays \<open>'true'\<close> and is not the value of the spec.
\<close>

theorem include_in_reports_false_ignored:
  "schema_from_spec \<lparr> sp_name = PStr ''Env'', sp_include_in_reports = Some (PBool False),
                       sp_rules = [] \<rparr> (h, init)
   = Inr (h, \<lparr> new_ref_id = 100, p_schema = empty_schema\<lparr>s_name := PStr ''Env''\<rparr> \<rparr>)
   \<and> s_include_in_reports (empty_schema\<lparr>s_name := PStr ''Env''\<rparr>) = PStr ''true''"
  by (simp add: schema_from_spec_def set_name_def set_rules_def init_def empty_schema_def)

section \<open>The group name of a rule\<close>

definition legacy_rule_store :: store where
  "legacy_rule_store =
     (\<lambda>_. PNone)(0 := PDict [(''type'', PStr ''categorize''), (''field'', PStr ''team''),
                               (''ref_id'', PStr ''Platform'')])"

text \<open>
  C8. A categorize rule that carries its group name under \<open>ref_id\<close> and has no key \<open>to\<close>:
  \<open>rule['to']\<close> is evaluated first and raises \<open>KeyError\<close>, so the rule is not translated.
\<close>

theorem legacy_categorize_rule_raises:
  "spec_rule_to_schema 0 (legacy_rule_store, init) = Inl (KeyError ''to'')"
  by (simp add: legacy_rule_store_def spec_rule_to_schema_def py_eval)

section \<open>Update through the client\<close>

text \<open>
  C9. An update with a spec named Env and no schema, on a perspective whose schema is
  named Other: the name check raises \<open>AttributeError\<close> at \<open>schema.get\<close>, not the
  \<open>RuntimeError\<close> of the name mismatch; the schema of the perspective is unchanged and
  nothing has been submitted.
\<close>

theorem update_with_spec_only_raises_attribute_error:
  "update server (empty_schema\<lparr>s_name := PStr ''Other''\<rparr>) None
     (Some \<lparr> sp_name = PStr ''Env'', sp_include_in_reports = None, sp_rules = [] \<rparr>)
   = (Some AttributeError,
      \<lparr> cs_perspective = empty_schema\<lparr>s_name := PStr ''Other''\<rparr>, cs_submitted = [] \<rparr>)"
  by (simp add: update_def provided_def empty_schema_def)

section \<open>Allocator\<close>

lemma get_new_ref_id_props:
  "get_new_ref_id p = (r, p') \<Longrightarrow>
     r = str_int (new_ref_id p') \<and> new_ref_id p < new_ref_id p'
     \<and> p_schema p' = p_schema p \<and> r \<notin> set (existing_ref_ids (p_schema p))"
proof (induction p arbitrary: r p' rule: get_new_ref_id.induct)
  case (1 p)
  show ?case
  proof (cases "str_int (new_ref_id p + 1) \<in> set (existing_ref_ids (p_schema p))")
    case True
    then have "get_new_ref_id (p\<lparr>new_ref_id := new_ref_id p + 1\<rparr>) = (r, p')"
      using "1.prems" by (simp add: get_new_ref_id_taken)
    with True have "r = str_int (new_ref_id p') \<and> new_ref_id (p\<lparr>new_ref_id := new_ref_id p + 1\<rparr>) < new_ref_id p'
     \<and> p_schema p' = p_schema (p\<lparr>new_ref_id := new_ref_id p + 1\<rparr>)
     \<and> r \<notin> set (existing_ref_ids (p_schema (p\<lparr>new_ref_id := new_ref_id p + 1\<rparr>)))"
      by (intro "1.IH") simp_all
    then show ?thesis by auto
  next
    case False
    then show ?thesis
      using "1.prems" by (auto simp add: get_new_ref_id_free)
  qed
qed











lemma str_int_103: "str_int 103 = ''103''"
  by (simp add: str_eval)



section \<open>Registry\<close>

lemma str_int_nonempty: "str_int n \<noteq> []"
  by (simp add: str_int_def digits_nonempty)

lemma group_items_with_constant:
  "group_items (s\<lparr>s_constants := with_constant k cs\<rparr>) = group_items (s\<lparr>s_constants := cs\<rparr>)"
  by (simp add: with_constant_def group_items_def)

lemma with_constant_has: "\<exists>c \<in> set (with_constant k cs). c_type c = k"
  by (simp add: with_constant_def)

lemma set_group_items_append_group:
  assumes "k \<in> set constant_types" and "\<exists>c \<in> set cs. c_type c = k"
  shows "set (group_items (s\<lparr>s_constants := append_group k g cs\<rparr>))
         = insert g (set (group_items (s\<lparr>s_constants := cs\<rparr>)))"
  using assms
  by (induction cs) (auto simp: group_items_def)

lemma get_new_ref_id_schema: "p_schema (snd (get_new_ref_id p)) = p_schema p"
  using get_new_ref_id_props [of p "fst (get_new_ref_id p)" "snd (get_new_ref_id p)"] by simp

lemma get_new_ref_id_str: "\<exists>k. fst (get_new_ref_id p) = str_int k"
  using get_new_ref_id_props [of p "fst (get_new_ref_id p)" "snd (get_new_ref_id p)"] by auto

lemma create_constant_items:
  assumes k: "k \<in> set constant_types"
  shows "set (group_items (p_schema (snd (create_constant n k p))))
         = insert \<lparr>i_ref_id = fst (create_constant n k p), i_name = n, i_is_other = None\<rparr>
             (set (group_items (p_schema p)))"
proof -
  let ?p1 = "set_constants (with_constant k (s_constants (p_schema p))) p"
  obtain r p2 where g: "get_new_ref_id ?p1 = (r, p2)"
    by (cases "get_new_ref_id ?p1")
  have sch: "p_schema p2 = (p_schema p)\<lparr>s_constants := with_constant k (s_constants (p_schema p))\<rparr>"
    using get_new_ref_id_schema [of ?p1] g by (simp add: set_constants_def)
  have res: "create_constant n k p
      = (r, set_constants (append_group k \<lparr>i_ref_id = r, i_name = n, i_is_other = None\<rparr>
                            (with_constant k (s_constants (p_schema p)))) p2)"
    using g by (simp add: create_constant_def sch)
  have "set (group_items (p_schema (snd (create_constant n k p))))
      = set (group_items ((p_schema p)\<lparr>s_constants :=
              append_group k \<lparr>i_ref_id = r, i_name = n, i_is_other = None\<rparr>
                 (with_constant k (s_constants (p_schema p)))\<rparr>))"
    by (simp add: res set_constants_def sch)
  also have "\<dots> = insert \<lparr>i_ref_id = r, i_name = n, i_is_other = None\<rparr>
      (set (group_items ((p_schema p)\<lparr>s_constants := with_constant k (s_constants (p_schema p))\<rparr>)))"
    by (rule set_group_items_append_group [OF k with_constant_has])
  also have "\<dots> = insert \<lparr>i_ref_id = r, i_name = n, i_is_other = None\<rparr>
      (set (group_items (p_schema p)))"
    by (simp add: group_items_with_constant)
  finally show ?thesis by (simp add: res)
qed


lemma create_constant_str: "\<exists>j. fst (create_constant n k p) = str_int j"
proof -
  let ?p1 = "set_constants (with_constant k (s_constants (p_schema p))) p"
  obtain r p2 where g: "get_new_ref_id ?p1 = (r, p2)"
    by (cases "get_new_ref_id ?p1")
  have "fst (create_constant n k p) = r"
    using g by (simp add: create_constant_def)
  with get_new_ref_id_str [of ?p1] g show ?thesis by simp
qed

lemma find_unique:
  "x \<in> set xs \<Longrightarrow> P x \<Longrightarrow> (\<forall>y \<in> set xs. P y \<longrightarrow> y = x) \<Longrightarrow> find P xs = Some x"
proof (induction xs)
  case Nil
  then show ?case by simp
next
  case (Cons a xs)
  show ?case
  proof (cases "P a")
    case True
    have "a \<in> set (a # xs)" by simp
    with Cons.prems(3) True have "a = x" by blast
    with True show ?thesis by simp
  next
    case False
    with Cons.prems(1,2) have mem: "x \<in> set xs" by auto
    have "\<forall>y \<in> set xs. P y \<longrightarrow> y = x"
      using Cons.prems(3) by (meson list.set_intros(2))
    with mem Cons.prems(2) have "find P xs = Some x" by (rule Cons.IH)
    with False show ?thesis by simp
  qed
qed

lemma find_SomeD: "find P xs = Some x \<Longrightarrow> x \<in> set xs \<and> P x"
  by (induction xs) (auto split: if_splits)

lemma create_constant_found:
  assumes k: "k \<in> set constant_types"
    and none: "\<forall>i \<in> set (group_items (p_schema p)). \<not> (py_eq (i_name i) n \<and> \<not> is_other i)"
    and refl: "py_eq n n"
  shows "get_ref_id_by_name (snd (create_constant n k p)) n = Some (fst (create_constant n k p))"
proof -
  let ?g = "\<lparr>i_ref_id = fst (create_constant n k p), i_name = n, i_is_other = None\<rparr>"
  let ?P = "\<lambda>i. py_eq (i_name i) n \<and> \<not> is_other i"
  have "find ?P (group_items (p_schema (snd (create_constant n k p)))) = Some ?g"
  proof (rule find_unique)
    show "?g \<in> set (group_items (p_schema (snd (create_constant n k p))))"
      by (simp add: create_constant_items [OF k])
    show "?P ?g" using refl by (simp add: is_other_def)
    show "\<forall>y \<in> set (group_items (p_schema (snd (create_constant n k p)))). ?P y \<longrightarrow> y = ?g"
      using none by (auto simp add: create_constant_items [OF k])
  qed
  then show ?thesis by (simp add: get_ref_id_by_name_def)
qed

text \<open>
  C3, amended. For a constant type that the lookup scans (\<open>Static Group\<close> or \<open>Dynamic
  Group Block\<close>), a schema whose groups in those constants have non-empty ref_ids, and a
  group name equal to itself under \<open>==\<close> (as every string is): a second \<open>_add_constant\<close>
  with the same arguments returns the ref_id of the first and leaves the perspective,
  with all its constants and their item lists, as the first call left it.
\<close>

theorem ensure_idempotent:
  assumes k: "constant_type \<in> set constant_types"
    and ids: "\<forall>i \<in> set (group_items (p_schema p)). i_ref_id i \<noteq> []"
    and refl: "py_eq constant_name constant_name"
  shows "add_constant constant_name constant_type (snd (add_constant constant_name constant_type p))
         = add_constant constant_name constant_type p"
proof (cases "find (\<lambda>i. py_eq (i_name i) constant_name \<and> \<not> is_other i) (group_items (p_schema p))")
  case None
  then have lookup: "get_ref_id_by_name p constant_name = None"
    by (simp add: get_ref_id_by_name_def)
  from None have none: "\<forall>i \<in> set (group_items (p_schema p)).
      \<not> (py_eq (i_name i) constant_name \<and> \<not> is_other i)"
    by (simp add: find_None_iff)
  have first: "add_constant constant_name constant_type p = create_constant constant_name constant_type p"
    by (simp add: add_constant_def lookup)
  obtain j where j: "fst (create_constant constant_name constant_type p) = str_int j"
    using create_constant_str by blast
  have "add_constant constant_name constant_type (snd (create_constant constant_name constant_type p))
        = (fst (create_constant constant_name constant_type p),
           snd (create_constant constant_name constant_type p))"
    by (simp add: add_constant_def create_constant_found [OF k none refl] j str_int_nonempty)
  then show ?thesis by (simp add: first)
next
  case (Some i)
  then have "i \<in> set (group_items (p_schema p))" by (rule find_SomeD [THEN conjunct1])
  with ids have "i_ref_id i \<noteq> []" by blast
  with Some have "add_constant constant_name constant_type p = (i_ref_id i, p)"
    by (simp add: add_constant_def get_ref_id_by_name_def)
  then show ?thesis by simp
qed


theorem ensure_idempotent_witness:
  "''Static Group'' \<in> set constant_types
   \<and> map i_ref_id (group_items (p_schema init)) = [''1234567890'']
   \<and> py_eq (PStr ''prod'') (PStr ''prod'')
   \<and> add_constant (PStr ''prod'') ''Static Group''
         (snd (add_constant (PStr ''prod'') ''Static Group'' init))
       = add_constant (PStr ''prod'') ''Static Group'' init
   \<and> fst (add_constant (PStr ''prod'') ''Static Group'' init) = ''101''"
proof -
  have k: "''Static Group'' \<in> set constant_types"
    by (simp add: constant_types_def)
  have ids: "\<forall>i \<in> set (group_items (p_schema init)). i_ref_id i \<noteq> []"
    by (simp add: init_def empty_schema_def group_items_def constant_types_def)
  have refl: "py_eq (PStr ''prod'') (PStr ''prod'')"
    by simp
  have "fst (add_constant (PStr ''prod'') ''Static Group'' init) = ''101''"
    by (simp add: init_def empty_schema_def add_constant_def create_constant_def
        get_ref_id_by_name_def group_items_def is_other_def with_constant_def set_constants_def
        existing_ref_ids_def constant_types_def get_new_ref_id_free str_int_101)
  moreover have "map i_ref_id (group_items (p_schema init)) = [''1234567890'']"
    by (simp add: init_def empty_schema_def group_items_def constant_types_def)
  ultimately show ?thesis
    using k refl ensure_idempotent [OF k ids refl] by simp
qed

text \<open>
  As stated for every constant type the property fails: with the type \<open>Dynamic Group\<close>,
  which \<open>_get_ref_id_by_name\<close> does not scan, the second call does not find the group of
  the first and creates another one, with ref_id 102 after 101.
\<close>

theorem ensure_other_kind_counterexample:
  "fst (add_constant (PStr ''prod'') ''Dynamic Group'' init) = ''101''
   \<and> fst (add_constant (PStr ''prod'') ''Dynamic Group''
            (snd (add_constant (PStr ''prod'') ''Dynamic Group'' init))) = ''102''"
  by (simp add: init_def empty_schema_def add_constant_def create_constant_def
        get_ref_id_by_name_def group_items_def is_other_def with_constant_def set_constants_def
        existing_ref_ids_def constant_types_def get_new_ref_id_free str_int_101 str_int_102)

section \<open>Derivation from well-formed rules\<close>

text \<open>
  What the derivation is compared with. The two loops over the items of a rule or of a
  clause change the values of the keys in \<open>_single_item_list_keys\<close> and keep the keys and
  their order: \<open>on_keys w\<close> applies \<open>w\<close> to these values, \<open>single_element\<close> replaces each
  list by its first element. \<open>single_ok\<close>: every value of such a key that is a list has
  exactly one element. \<open>cond_map f\<close> rewrites the clauses of a truthy condition in place.
  A schema rule is well formed when it is a dictionary with a truthy \<open>ref_id\<close> or a key
  \<open>to\<close>, and its condition, when truthy, is a dictionary whose \<open>clauses\<close> are a list of
  dictionaries.
\<close>

definition first_elem :: "pyval \<Rightarrow> pyval" where
  "first_elem v = (case v of PList (x # xs) \<Rightarrow> x | _ \<Rightarrow> v)"

definition on_keys :: "(pyval \<Rightarrow> pyval) \<Rightarrow> (string \<times> pyval) list \<Rightarrow> (string \<times> pyval) list" where
  "on_keys w d = map (\<lambda>(k, v). (k, if k \<in> set single_item_list_keys then w v else v)) d"

definition single_element :: "(string \<times> pyval) list \<Rightarrow> (string \<times> pyval) list" where
  "single_element d = on_keys first_elem d"

definition entry_ok :: "string \<Rightarrow> pyval \<Rightarrow> bool" where
  "entry_ok k v =
     (case v of PList xs \<Rightarrow> k \<notin> set single_item_list_keys \<or> length xs = 1 | _ \<Rightarrow> True)"

definition single_ok :: "(string \<times> pyval) list \<Rightarrow> bool" where
  "single_ok d = list_all (\<lambda>(k, v). entry_ok k v) d"

fun is_dict :: "pyval \<Rightarrow> bool" where
  "is_dict (PDict d) = True"
| "is_dict _ = False"


definition clauses_of :: "(string \<times> pyval) list \<Rightarrow> pyval list" where
  "clauses_of d =
     (if \<not> truthy (dget d ''condition'') then []
      else case dget d ''condition'' of
        PDict cond \<Rightarrow> (case map_of cond ''clauses'' of Some (PList cs) \<Rightarrow> cs | _ \<Rightarrow> [])
      | _ \<Rightarrow> [])"

definition wf_condition :: "(string \<times> pyval) list \<Rightarrow> bool" where
  "wf_condition d =
     (if \<not> truthy (dget d ''condition'') then True
      else case dget d ''condition'' of
        PDict cond \<Rightarrow>
          (case map_of cond ''clauses'' of Some (PList cs) \<Rightarrow> list_all is_dict cs | _ \<Rightarrow> False)
      | _ \<Rightarrow> False)"

definition wf_schema_rule :: "pyval \<Rightarrow> bool" where
  "wf_schema_rule r =
     (case r of
        PDict d \<Rightarrow> (truthy (dget d ''ref_id'') \<or> map_of d ''to'' \<noteq> None) \<and> wf_condition d
      | _ \<Rightarrow> False)"

definition clause_ok :: "pyval \<Rightarrow> bool" where
  "clause_ok c = (case c of PDict e \<Rightarrow> single_ok e | _ \<Rightarrow> True)"

definition rule_ok :: "pyval \<Rightarrow> bool" where
  "rule_ok r = (case r of PDict d \<Rightarrow> single_ok d \<and> list_all clause_ok (clauses_of d) | _ \<Rightarrow> True)"

definition clause_single :: "pyval \<Rightarrow> pyval" where
  "clause_single c = (case c of PDict e \<Rightarrow> PDict (single_element e) | _ \<Rightarrow> c)"

definition cond_map :: "(pyval \<Rightarrow> pyval) \<Rightarrow> (string \<times> pyval) list \<Rightarrow> (string \<times> pyval) list" where
  "cond_map f d =
     (if \<not> truthy (dget d ''condition'') then d
      else case dget d ''condition'' of
             PDict cond \<Rightarrow>
               dset d ''condition'' (PDict (dset cond ''clauses'' (PList (map f (clauses_of d)))))
           | _ \<Rightarrow> d)"

definition reference :: "(string \<times> pyval) list \<Rightarrow> pyval" where
  "reference d = (if truthy (dget d ''ref_id'') then dget d ''ref_id'' else dget d ''to'')"

definition renamed :: "(string \<times> pyval) list \<Rightarrow> (string \<times> pyval) list" where
  "renamed d =
     (if truthy (dget d ''ref_id'') then ddel (dset d ''to'' (dget d ''ref_id'')) ''ref_id'' else d)"

definition resolved :: "perspective \<Rightarrow> (string \<times> pyval) list \<Rightarrow> (string \<times> pyval) list" where
  "resolved p d = dset (renamed d) ''to'' (get_name_by_ref_id p (reference d))"

definition unwrapped :: "(string \<times> pyval) list \<Rightarrow> (string \<times> pyval) list" where
  "unwrapped d = cond_map clause_single (single_element d)"

definition spec_rule :: "perspective \<Rightarrow> (string \<times> pyval) list \<Rightarrow> (string \<times> pyval) list" where
  "spec_rule p d = unwrapped (resolved p d)"

definition spec_rule_val :: "perspective \<Rightarrow> pyval \<Rightarrow> pyval" where
  "spec_rule_val p r = (case r of PDict d \<Rightarrow> PDict (spec_rule p d) | _ \<Rightarrow> r)"

text \<open>
  A value is scalar under a key of \<open>_single_item_list_keys\<close> when it is not a list, and
  flat when its single element is not a list. A rule is scalar, or flat, when every value
  at its top level and in its clauses is.
\<close>

definition entry_scalar :: "string \<Rightarrow> pyval \<Rightarrow> bool" where
  "entry_scalar k v = (case v of PList xs \<Rightarrow> k \<notin> set single_item_list_keys | _ \<Rightarrow> True)"

definition scalar_items :: "(string \<times> pyval) list \<Rightarrow> bool" where
  "scalar_items d = list_all (\<lambda>(k, v). entry_scalar k v) d"

definition clause_scalar :: "pyval \<Rightarrow> bool" where
  "clause_scalar c = (case c of PDict e \<Rightarrow> scalar_items e | _ \<Rightarrow> True)"

definition scalar_rule :: "pyval \<Rightarrow> bool" where
  "scalar_rule r =
     (case r of PDict d \<Rightarrow> scalar_items d \<and> list_all clause_scalar (clauses_of d) | _ \<Rightarrow> True)"






definition unresolved :: "perspective \<Rightarrow> pyval \<Rightarrow> bool" where
  "unresolved p ref_id =
     (find (\<lambda>i. py_eq (PStr (i_ref_id i)) ref_id \<and> \<not> is_other i) (group_items (p_schema p))
        = None)"

definition rule_reference :: "pyval \<Rightarrow> pyval" where
  "rule_reference r = (case r of PDict d \<Rightarrow> reference d | _ \<Rightarrow> PNone)"

definition to_is_none :: "pyval \<Rightarrow> bool" where
  "to_is_none r = (case r of PDict d \<Rightarrow> map_of d ''to'' = Some PNone | _ \<Rightarrow> False)"

subsection \<open>Dictionaries as lists\<close>

lemma keys_simps:
  "''to'' \<notin> set single_item_list_keys" "''ref_id'' \<notin> set single_item_list_keys"
  "''condition'' \<notin> set single_item_list_keys" "''type'' \<notin> set single_item_list_keys"
  by (simp_all add: single_item_list_keys_def)

lemma update_commute:
  "k \<noteq> k' \<Longrightarrow> k' \<in> fst ` set d \<Longrightarrow>
   AList.update k v (AList.update k' v' d) = AList.update k' v' (AList.update k v d)"
  by (induction d) auto

lemma dget_present: "dget d k = PDict c \<Longrightarrow> map_of d k = Some (PDict c)"
  by (simp add: dget_def split: option.splits)

lemma map_of_present: "map_of d k = Some v \<Longrightarrow> k \<in> fst ` set d"
  by (metis domI dom_map_of_conv_image_fst)

lemma on_keys_update:
  "on_keys w (AList.update k v d)
     = AList.update k (if k \<in> set single_item_list_keys then w v else v) (on_keys w d)"
  by (induction d) (auto simp: on_keys_def)

lemma on_keys_delete: "on_keys w (AList.delete k d) = AList.delete k (on_keys w d)"
  by (induction d) (auto simp: on_keys_def)

lemma map_of_on_keys:
  "map_of (on_keys w d) k
     = (if k \<in> set single_item_list_keys then map_option w (map_of d k) else map_of d k)"
  by (induction d) (auto simp: on_keys_def)

lemma on_keys_comp: "on_keys w (on_keys u d) = on_keys (\<lambda>v. w (u v)) d"
  by (induction d) (auto simp: on_keys_def)

lemma on_keys_cong:
  "list_all (\<lambda>(k, v). k \<in> set single_item_list_keys \<longrightarrow> w v = u v) d \<Longrightarrow>
   on_keys w d = on_keys u d"
  by (induction d) (auto simp: on_keys_def)

lemma on_keys_id: "on_keys (\<lambda>v. v) d = d"
  by (induction d) (auto simp: on_keys_def)

lemma map_of_single_element:
  "map_of (single_element d) k
     = (if k \<in> set single_item_list_keys then map_option first_elem (map_of d k) else map_of d k)"
  by (simp add: single_element_def map_of_on_keys)

lemma dget_on_keys: "k \<notin> set single_item_list_keys \<Longrightarrow> dget (on_keys w d) k = dget d k"
  by (simp add: dget_def map_of_on_keys)

lemma dget_update: "k \<noteq> k' \<Longrightarrow> dget (AList.update k' v d) k = dget d k"
  by (simp add: dget_def update_conv')

lemma dget_update_same: "dget (AList.update k v d) k = v"
  by (simp add: dget_def update_conv')

lemma dget_delete: "k \<noteq> k' \<Longrightarrow> dget (AList.delete k' d) k = dget d k"
  by (simp add: dget_def delete_conv')


lemma list_all_update:
  "P (k, v) \<Longrightarrow> list_all P d \<Longrightarrow> list_all P (AList.update k v d)"
  by (induction d) auto

lemma list_all_delete: "list_all P d \<Longrightarrow> list_all P (AList.delete k d)"
  by (induction d) auto

subsection \<open>Conditions\<close>

lemma clauses_of_cong: "dget d ''condition'' = dget e ''condition'' \<Longrightarrow> clauses_of d = clauses_of e"
  by (simp add: clauses_of_def)

lemma wf_condition_cong:
  "dget d ''condition'' = dget e ''condition'' \<Longrightarrow> wf_condition d = wf_condition e"
  by (simp add: wf_condition_def)

lemma clauses_of_empty: "\<not> truthy (dget d ''condition'') \<Longrightarrow> clauses_of d = []"
  by (simp add: clauses_of_def)

lemma wf_condition_falsy: "\<not> truthy (dget d ''condition'') \<Longrightarrow> wf_condition d"
  by (simp add: wf_condition_def)

lemma wf_conditionD:
  assumes "wf_condition d" and "truthy (dget d ''condition'')"
  obtains cond cs where "dget d ''condition'' = PDict cond"
    and "map_of cond ''clauses'' = Some (PList cs)" and "list_all is_dict cs"
    and "clauses_of d = cs"
proof -
  from assms obtain cond cs where cond: "dget d ''condition'' = PDict cond"
    and cl: "map_of cond ''clauses'' = Some (PList cs)" and dicts: "list_all is_dict cs"
    by (auto simp: wf_condition_def split: pyval.splits option.splits)
  have "clauses_of d = cs"
    using assms(2) cond cl by (simp add: clauses_of_def)
  with cond cl dicts that show ?thesis by blast
qed

lemma cond_map_falsy: "\<not> truthy (dget d ''condition'') \<Longrightarrow> cond_map f d = d"
  by (simp add: cond_map_def)

lemma cond_map_truthy:
  "truthy (dget d ''condition'') \<Longrightarrow> dget d ''condition'' = PDict cond \<Longrightarrow>
   cond_map f d
     = AList.update ''condition''
         (PDict (AList.update ''clauses'' (PList (map f (clauses_of d))) cond)) d"
  by (simp add: cond_map_def dset_def)

lemma cond_map_update:
  assumes k: "k \<noteq> ''condition''"
  shows "cond_map f (AList.update k v d) = AList.update k v (cond_map f d)"
proof -
  have c: "dget (AList.update k v d) ''condition'' = dget d ''condition''"
    using k by (simp add: dget_update)
  have cl: "clauses_of (AList.update k v d) = clauses_of d"
    by (rule clauses_of_cong [OF c])
  show ?thesis
  proof (cases "truthy (dget d ''condition'')")
    case False
    then show ?thesis by (simp add: cond_map_falsy c)
  next
    case True
    show ?thesis
    proof (cases "dget d ''condition''")
      case (PDict cond)
      then have mem: "''condition'' \<in> fst ` set d"
        by (intro map_of_present [OF dget_present])
      show ?thesis
        using True PDict
        by (simp add: cond_map_truthy c cl update_commute [OF k mem, symmetric])
    qed (simp_all add: cond_map_def c)
  qed
qed

lemma cond_map_delete:
  assumes k: "k \<noteq> ''condition''"
  shows "cond_map f (AList.delete k d) = AList.delete k (cond_map f d)"
proof -
  have c: "dget (AList.delete k d) ''condition'' = dget d ''condition''"
    using k by (simp add: dget_delete)
  have cl: "clauses_of (AList.delete k d) = clauses_of d"
    by (rule clauses_of_cong [OF c])
  show ?thesis
  proof (cases "truthy (dget d ''condition'')")
    case False
    then show ?thesis by (simp add: cond_map_falsy c)
  next
    case True
    show ?thesis
    proof (cases "dget d ''condition''")
      case (PDict cond)
      then show ?thesis
        using True k
        by (simp add: cond_map_truthy c cl delete_update [symmetric])
    qed (simp_all add: cond_map_def c)
  qed
qed

lemma on_keys_cond_map: "on_keys w (cond_map f d) = cond_map f (on_keys w d)"
proof -
  have c: "dget (on_keys w d) ''condition'' = dget d ''condition''"
    by (simp add: dget_on_keys keys_simps)
  have cl: "clauses_of (on_keys w d) = clauses_of d"
    by (rule clauses_of_cong [OF c])
  show ?thesis
  proof (cases "truthy (dget d ''condition'')")
    case False
    then show ?thesis by (simp add: cond_map_falsy c)
  next
    case True
    show ?thesis
    proof (cases "dget d ''condition''")
      case (PDict cond)
      then show ?thesis
        using True
        by (simp add: cond_map_truthy c cl on_keys_update keys_simps)
    qed (simp_all add: cond_map_def c)
  qed
qed

lemma map_of_cond_map: "k \<noteq> ''condition'' \<Longrightarrow> map_of (cond_map f d) k = map_of d k"
  by (simp add: cond_map_def dset_def update_conv' split: pyval.splits)


lemma condition_cond_map:
  assumes "wf_condition d" and "truthy (dget d ''condition'')"
  obtains cond where "dget d ''condition'' = PDict cond"
    and "map_of cond ''clauses'' = Some (PList (clauses_of d))"
    and "dget (cond_map f d) ''condition''
           = PDict (AList.update ''clauses'' (PList (map f (clauses_of d))) cond)"
proof -
  from assms obtain cond cs where cond: "dget d ''condition'' = PDict cond"
    and cl: "map_of cond ''clauses'' = Some (PList cs)" and cls: "clauses_of d = cs"
    by (rule wf_conditionD)
  have "dget (cond_map f d) ''condition''
           = PDict (AList.update ''clauses'' (PList (map f (clauses_of d))) cond)"
    using assms(2) cond by (simp add: cond_map_truthy dget_update_same)
  with cond cl cls that show ?thesis by simp
qed

lemma clauses_of_cond_map:
  assumes wf: "wf_condition d"
  shows "clauses_of (cond_map f d) = map f (clauses_of d)"
proof (cases "truthy (dget d ''condition'')")
  case False
  then show ?thesis by (simp add: cond_map_falsy clauses_of_empty)
next
  case True
  from wf True obtain cond where
    c: "dget (cond_map f d) ''condition''
           = PDict (AList.update ''clauses'' (PList (map f (clauses_of d))) cond)"
    by (rule condition_cond_map)
  show ?thesis
    by (simp add: clauses_of_def [of "cond_map f d"] c update_conv')
qed

lemma wf_condition_cond_map:
  assumes wf: "wf_condition d" and f: "\<And>c. is_dict c \<Longrightarrow> is_dict (f c)"
  shows "wf_condition (cond_map f d)"
proof (cases "truthy (dget d ''condition'')")
  case False
  then show ?thesis using wf by (simp add: cond_map_falsy)
next
  case True
  from wf True obtain cond cs where cond: "dget d ''condition'' = PDict cond"
    and dicts: "list_all is_dict cs" and cls: "clauses_of d = cs"
    by (rule wf_conditionD)
  have c: "dget (cond_map f d) ''condition''
           = PDict (AList.update ''clauses'' (PList (map f cs)) cond)"
    using True cond cls by (simp add: cond_map_truthy dget_update_same)
  have "list_all is_dict (map f cs)"
    using dicts f by (simp add: list_all_iff)
  then show ?thesis
    by (simp add: wf_condition_def [of "cond_map f d"] c update_conv')
qed

lemma cond_map_comp:
  assumes wf: "wf_condition d"
  shows "cond_map g (cond_map f d) = cond_map (\<lambda>c. g (f c)) d"
proof (cases "truthy (dget d ''condition'')")
  case False
  then show ?thesis by (simp add: cond_map_falsy)
next
  case True
  from wf True obtain cond cs where cond: "dget d ''condition'' = PDict cond"
    and cls: "clauses_of d = cs"
    by (rule wf_conditionD)
  let ?V = "PDict (AList.update ''clauses'' (PList (map f cs)) cond)"
  have one: "cond_map f d = AList.update ''condition'' ?V d"
    using True cond cls by (simp add: cond_map_truthy)
  have c1: "dget (cond_map f d) ''condition'' = ?V"
    by (simp add: one dget_update_same)
  have t1: "truthy (dget (cond_map f d) ''condition'')"
    by (simp add: c1)
  have cl1: "clauses_of (cond_map f d) = map f cs"
    using clauses_of_cond_map [OF wf, of f] cls by simp
  have "cond_map g (cond_map f d)
      = AList.update ''condition''
          (PDict (AList.update ''clauses'' (PList (map g (map f cs)))
                   (AList.update ''clauses'' (PList (map f cs)) cond)))
          (cond_map f d)"
    using cond_map_truthy [OF t1 c1, of g] cl1 by simp
  also have "\<dots> = AList.update ''condition''
          (PDict (AList.update ''clauses'' (PList (map (\<lambda>c. g (f c)) cs)) cond)) d"
    by (simp add: one comp_def)
  also have "\<dots> = cond_map (\<lambda>c. g (f c)) d"
    using True cond cls by (simp add: cond_map_truthy)
  finally show ?thesis .
qed

lemma cond_map_cong:
  assumes "\<And>c. c \<in> set (clauses_of d) \<Longrightarrow> f c = g c"
  shows "cond_map f d = cond_map g d"
proof -
  have eq: "map f (clauses_of d) = map g (clauses_of d)"
    using assms by simp
  show ?thesis by (simp only: cond_map_def eq)
qed

lemma cond_map_id:
  assumes wf: "wf_condition d"
  shows "cond_map (\<lambda>c. c) d = d"
proof (cases "truthy (dget d ''condition'')")
  case False
  then show ?thesis by (simp add: cond_map_falsy)
next
  case True
  from wf True obtain cond cs where cond: "dget d ''condition'' = PDict cond"
    and cl: "map_of cond ''clauses'' = Some (PList cs)" and cls: "clauses_of d = cs"
    by (rule wf_conditionD)
  have "AList.update ''clauses'' (PList cs) cond = cond"
    by (rule update_triv [OF cl])
  moreover have "AList.update ''condition'' (PDict cond) d = d"
    by (rule update_triv [OF dget_present [OF cond]])
  ultimately show ?thesis
    using True cond cls by (simp add: cond_map_truthy)
qed

subsection \<open>One pass over a rule\<close>

lemma single_ok_Cons: "single_ok ((k, v) # d) = (entry_ok k v \<and> single_ok d)"
  by (simp add: single_ok_def)

lemma from_list_items_ok: "single_ok d \<Longrightarrow> from_list_items d = Inr (single_element d)"
proof (induction d)
  case Nil
  then show ?case by (simp add: single_element_def on_keys_def)
next
  case (Cons kv d)
  obtain k v where kv: "kv = (k, v)" by (cases kv)
  from Cons.prems kv have ok: "single_ok d" and e: "entry_ok k v"
    by (simp_all add: single_ok_Cons)
  with Cons.IH have ih: "from_list_items d = Inr (single_element d)" by simp
  show ?case
  proof (cases v)
    case (PList xs)
    show ?thesis
    proof (cases "k \<in> set single_item_list_keys")
      case True
      with e PList have "length xs = 1" by (simp add: entry_ok_def)
      then obtain x where "xs = [x]" by (cases xs) auto
      with True kv PList ih show ?thesis
        by (simp add: single_element_def on_keys_def first_elem_def)
    next
      case False
      with kv PList ih show ?thesis by (simp add: single_element_def on_keys_def)
    qed
  qed (use kv ih in \<open>simp_all add: single_element_def on_keys_def first_elem_def\<close>)
qed

lemma from_list_items_bad:
  "\<not> single_ok d \<Longrightarrow> from_list_items d = Inl (RuntimeError MalformedRuleField)"
proof (induction d)
  case Nil
  then show ?case by (simp add: single_ok_def)
next
  case (Cons kv d)
  obtain k v where kv: "kv = (k, v)" by (cases kv)
  show ?case
  proof (cases "single_ok d")
    case True
    with Cons.prems kv have e: "\<not> entry_ok k v" by (simp add: single_ok_Cons)
    show ?thesis
    proof (cases v)
      case (PList xs)
      with e have "k \<in> set single_item_list_keys" "length xs \<noteq> 1"
        by (simp_all add: entry_ok_def)
      with kv PList show ?thesis by simp
    qed (use e in \<open>simp_all add: entry_ok_def\<close>)
  next
    case False
    with Cons.IH have ih: "from_list_items d = Inl (RuntimeError MalformedRuleField)" by simp
    show ?thesis using kv ih by (cases v) simp_all
  qed
qed

lemma each_clause_eq:
  "list_all is_dict cs \<Longrightarrow>
   each_clause from_list_items cs
     = (if list_all clause_ok cs then Inr (map clause_single cs)
        else Inl (RuntimeError MalformedRuleField))"
proof (induction cs)
  case Nil
  then show ?case by simp
next
  case (Cons c cs)
  from Cons.prems obtain e where c: "c = PDict e" by (cases c) simp_all
  from Cons.prems have "list_all is_dict cs" by simp
  with Cons.IH have ih: "each_clause from_list_items cs
     = (if list_all clause_ok cs then Inr (map clause_single cs)
        else Inl (RuntimeError MalformedRuleField))" by simp
  have ok: "clause_ok c = single_ok e" and sg: "clause_single c = PDict (single_element e)"
    by (simp_all add: c clause_ok_def clause_single_def)
  show ?case
  proof (cases "single_ok e")
    case True
    then show ?thesis
      by (simp add: ok sg) (simp add: c ih from_list_items_ok)
  next
    case False
    then show ?thesis
      by (simp add: ok) (simp add: c from_list_items_bad)
  qed
qed

lemma over_condition_eq:
  assumes wf: "wf_condition d"
  shows "over_condition from_list_items d
     = (if list_all clause_ok (clauses_of d) then Inr (cond_map clause_single d)
        else Inl (RuntimeError MalformedRuleField))"
proof (cases "truthy (dget d ''condition'')")
  case False
  then show ?thesis by (simp add: over_condition_def clauses_of_empty cond_map_falsy)
next
  case True
  from wf True obtain cond cs where cond: "dget d ''condition'' = PDict cond"
    and cl: "map_of cond ''clauses'' = Some (PList cs)" and dicts: "list_all is_dict cs"
    and cls: "clauses_of d = cs"
    by (rule wf_conditionD)
  show ?thesis
    using True cond cl
    by (simp add: over_condition_def cls each_clause_eq [OF dicts] cond_map_def)
qed

lemma entry_ok_other: "k \<notin> set single_item_list_keys \<Longrightarrow> entry_ok k v"
  by (cases v) (simp_all add: entry_ok_def)

lemma single_ok_update:
  "k \<notin> set single_item_list_keys \<Longrightarrow> single_ok (AList.update k v d) = single_ok d"
proof (induction d)
  case Nil
  then show ?case by (simp add: single_ok_def entry_ok_other)
next
  case (Cons a d)
  obtain k' v' where a: "a = (k', v')" by (cases a)
  with Cons show ?case by (simp add: single_ok_Cons entry_ok_other)
qed

lemma single_ok_delete:
  "k \<notin> set single_item_list_keys \<Longrightarrow> single_ok (AList.delete k d) = single_ok d"
proof (induction d)
  case Nil
  then show ?case by simp
next
  case (Cons a d)
  obtain k' v' where a: "a = (k', v')" by (cases a)
  with Cons show ?case by (simp add: single_ok_Cons entry_ok_other)
qed

lemma renamed_to:
  "truthy (dget d ''ref_id'') \<or> map_of d ''to'' \<noteq> None \<Longrightarrow>
   dsub (renamed d) ''to'' = Inr (reference d)"
  by (auto simp: renamed_def reference_def dsub_def dget_def dset_def ddel_def
        update_conv delete_conv)

lemma single_ok_resolved: "single_ok (resolved p d) = single_ok d"
  by (simp add: resolved_def renamed_def dset_def ddel_def single_ok_update single_ok_delete
        keys_simps)

lemma condition_resolved: "dget (resolved p d) ''condition'' = dget d ''condition''"
  by (simp add: resolved_def renamed_def dset_def ddel_def dget_update dget_delete)

lemma condition_single_element: "dget (single_element d) ''condition'' = dget d ''condition''"
  by (simp add: single_element_def dget_on_keys keys_simps)

lemma rule_to_spec_form_eq:
  assumes wf: "wf_schema_rule (PDict d)"
  shows "rule_to_spec_form p (PDict d)
     = (if rule_ok (PDict d) then Inr (PDict (spec_rule p d))
        else Inl (RuntimeError MalformedRuleField))"
proof -
  let ?r2 = "resolved p d"
  let ?r3 = "single_element ?r2"
  from wf have to: "dsub (renamed d) ''to'' = Inr (reference d)"
    by (intro renamed_to) (simp add: wf_schema_rule_def)
  from wf have wfc: "wf_condition d" by (simp add: wf_schema_rule_def)
  have step: "rule_to_spec_form p (PDict d)
      = (case from_list_items ?r2 of
           Inl e \<Rightarrow> Inl e
         | Inr r3 \<Rightarrow> (case over_condition from_list_items r3 of
                        Inl e \<Rightarrow> Inl e | Inr r4 \<Rightarrow> Inr (PDict r4)))"
    using to by (simp add: rule_to_spec_form_def renamed_def resolved_def Let_def)
  show ?thesis
  proof (cases "single_ok d")
    case False
    then have "from_list_items ?r2 = Inl (RuntimeError MalformedRuleField)"
      by (intro from_list_items_bad) (simp add: single_ok_resolved)
    with False show ?thesis
      by (simp add: step rule_ok_def)
  next
    case True
    then have fl: "from_list_items ?r2 = Inr ?r3"
      by (intro from_list_items_ok) (simp add: single_ok_resolved)
    have c: "dget ?r3 ''condition'' = dget d ''condition''"
      by (simp add: condition_single_element condition_resolved)
    have wf3: "wf_condition ?r3"
      using wfc wf_condition_cong [OF c] by simp
    have cl3: "clauses_of ?r3 = clauses_of d"
      by (rule clauses_of_cong [OF c])
    show ?thesis
      using True
      by (simp add: step fl over_condition_eq [OF wf3] cl3 rule_ok_def spec_rule_def
            unwrapped_def)
  qed
qed

lemma rule_to_spec_form_val:
  assumes wf: "wf_schema_rule r"
  shows "rule_to_spec_form p r
     = (if rule_ok r then Inr (spec_rule_val p r) else Inl (RuntimeError MalformedRuleField))"
proof -
  from wf obtain d where r: "r = PDict d" by (cases r) (simp_all add: wf_schema_rule_def)
  show ?thesis
    using rule_to_spec_form_eq [of d p] wf by (simp add: r spec_rule_val_def)
qed

lemma spec_rule_to: "map_of (spec_rule p d) ''to'' = Some (get_name_by_ref_id p (reference d))"
  by (simp add: spec_rule_def unwrapped_def resolved_def map_of_cond_map map_of_single_element
        keys_simps dset_def update_conv')










lemma unresolved_to_is_none:
  "wf_schema_rule r \<Longrightarrow> unresolved p (rule_reference r) \<Longrightarrow> to_is_none (spec_rule_val p r)"
proof -
  assume wf: "wf_schema_rule r" and un: "unresolved p (rule_reference r)"
  from wf obtain d where r: "r = PDict d" by (cases r) (simp_all add: wf_schema_rule_def)
  from un r have "get_name_by_ref_id p (reference d) = PNone"
    by (simp add: unresolved_def rule_reference_def get_name_by_ref_id_def)
  then show ?thesis
    by (simp add: r to_is_none_def spec_rule_val_def spec_rule_to)
qed

subsection \<open>Scalar and flat rules\<close>

lemma entry_scalar_other: "k \<notin> set single_item_list_keys \<Longrightarrow> entry_scalar k v"
  by (cases v) (simp_all add: entry_scalar_def)


lemma entry_scalar_ok: "entry_scalar k v \<Longrightarrow> entry_ok k v"
  by (cases v) (simp_all add: entry_scalar_def entry_ok_def)


lemma first_elem_scalar:
  "entry_scalar k v \<Longrightarrow> k \<in> set single_item_list_keys \<Longrightarrow> first_elem v = v"
  by (cases v) (simp_all add: entry_scalar_def first_elem_def)


lemma scalar_items_Cons: "scalar_items ((k, v) # d) = (entry_scalar k v \<and> scalar_items d)"
  by (simp add: scalar_items_def)


lemma scalar_items_single_ok: "scalar_items d \<Longrightarrow> single_ok d"
proof (induction d)
  case Nil
  then show ?case by (simp add: single_ok_def)
next
  case (Cons a d)
  obtain k v where a: "a = (k, v)" by (cases a)
  with Cons show ?case by (simp add: scalar_items_Cons single_ok_Cons entry_scalar_ok)
qed


lemma single_element_scalar: "scalar_items d \<Longrightarrow> single_element d = d"
proof (induction d)
  case Nil
  then show ?case by (simp add: single_element_def on_keys_def)
next
  case (Cons a d)
  obtain k v where a: "a = (k, v)" by (cases a)
  from Cons.prems a have e: "entry_scalar k v" and s: "scalar_items d"
    by (simp_all add: scalar_items_Cons)
  from Cons.IH s have ih: "on_keys first_elem d = d" by (simp add: single_element_def)
  have "on_keys first_elem ((k, v) # d) = (k, v) # on_keys first_elem d"
    using first_elem_scalar [OF e] by (simp add: on_keys_def)
  then show ?case by (simp add: a single_element_def ih)
qed



lemma scalar_items_update:
  "k \<notin> set single_item_list_keys \<Longrightarrow> scalar_items d \<Longrightarrow> scalar_items (AList.update k v d)"
  unfolding scalar_items_def by (rule list_all_update) (simp_all add: entry_scalar_other)

lemma scalar_items_delete: "scalar_items d \<Longrightarrow> scalar_items (AList.delete k d)"
  unfolding scalar_items_def by (rule list_all_delete)




lemma scalar_items_resolved: "scalar_items d \<Longrightarrow> scalar_items (resolved p d)"
  by (simp add: resolved_def renamed_def dset_def ddel_def scalar_items_update
        scalar_items_delete keys_simps)


lemma clause_single_scalar: "clause_scalar c \<Longrightarrow> clause_single c = c"
  by (cases c) (simp_all add: clause_scalar_def clause_single_def single_element_scalar)


lemma clause_scalar_ok: "clause_scalar c \<Longrightarrow> clause_ok c"
  by (cases c) (simp_all add: clause_scalar_def clause_ok_def scalar_items_single_ok)


lemma scalar_rule_ok: "scalar_rule r \<Longrightarrow> rule_ok r"
  by (cases r)
     (simp_all add: scalar_rule_def rule_ok_def scalar_items_single_ok list_all_iff
        clause_scalar_ok)




subsection \<open>Passes over a shared rule\<close>




lemma rules_to_spec_form_passes:
  assumes "\<forall>a \<in> set as. \<forall>k < count_list as a.
             wf_schema_rule ((spec_rule_val p ^^ k) (c a))
             \<and> rule_ok ((spec_rule_val p ^^ k) (c a))"
  shows "rules_to_spec_form p as c = Inr (\<lambda>a. (spec_rule_val p ^^ count_list as a) (c a))"
  using assms
proof (induction as arbitrary: c)
  case Nil
  show ?case by simp
next
  case (Cons a as)
  let ?f = "spec_rule_val p"
  let ?c1 = "c(a := ?f (c a))"
  have "0 < count_list (a # as) a" by simp
  with Cons.prems have "wf_schema_rule ((?f ^^ 0) (c a)) \<and> rule_ok ((?f ^^ 0) (c a))"
    by (metis list.set_intros(1))
  then have wf: "wf_schema_rule (c a)" and ok: "rule_ok (c a)" by simp_all
  have head: "rule_to_spec_form p (c a) = Inr (?f (c a))"
    using ok by (simp add: rule_to_spec_form_val [OF wf])
  have prem1: "\<forall>b \<in> set as. \<forall>k < count_list as b.
             wf_schema_rule ((?f ^^ k) (?c1 b)) \<and> rule_ok ((?f ^^ k) (?c1 b))"
  proof (intro ballI allI impI)
    fix b k
    assume b: "b \<in> set as" and k: "k < count_list as b"
    show "wf_schema_rule ((?f ^^ k) (?c1 b)) \<and> rule_ok ((?f ^^ k) (?c1 b))"
    proof (cases "b = a")
      case True
      have "(?f ^^ k) (?c1 b) = (?f ^^ Suc k) (c a)"
        using True by (simp add: funpow_swap1)
      moreover have "Suc k < count_list (a # as) a"
        using k True by simp
      ultimately show ?thesis
        using Cons.prems by (metis list.set_intros(1))
    next
      case False
      with k have "k < count_list (a # as) b" by simp
      moreover from b have "b \<in> set (a # as)" by simp
      ultimately have "wf_schema_rule ((?f ^^ k) (c b)) \<and> rule_ok ((?f ^^ k) (c b))"
        using Cons.prems by blast
      with False show ?thesis by simp
    qed
  qed
  have ih: "rules_to_spec_form p as ?c1 = Inr (\<lambda>b. (?f ^^ count_list as b) (?c1 b))"
    by (rule Cons.IH [OF prem1])
  have "(\<lambda>b. (?f ^^ count_list as b) (?c1 b)) = (\<lambda>b. (?f ^^ count_list (a # as) b) (c b))"
    by (intro ext) (simp add: funpow_swap1)
  with ih head show ?case by simp
qed




lemma count_list_pos: "a \<in> set as \<Longrightarrow> \<exists>k. count_list as a = Suc k"
  by (metis count_list_0_iff not0_implies_Suc)

subsection \<open>Field lists\<close>



subsection \<open>Scenarios C and D\<close>

















section \<open>Round trip of stable rules\<close>

text \<open>
  The invariant of the registry that the round trip needs, and what it means for a
  group to be registered under a ref_id. A name is exact when Python's \<open>==\<close> holds
  between it and no other value: a string, or an integer other than 0 and 1, which
  \<open>False\<close> and \<open>True\<close> equal.
\<close>

definition exact_name :: "pyval \<Rightarrow> bool" where
  "exact_name n = (case n of PStr s \<Rightarrow> True | PInt i \<Rightarrow> i \<noteq> 0 \<and> i \<noteq> 1 | _ \<Rightarrow> False)"

definition same_ref_same_name :: "schema \<Rightarrow> bool" where
  "same_ref_same_name s =
     (\<forall>i \<in> set (group_items s). \<forall>j \<in> set (group_items s).
        \<not> is_other i \<and> \<not> is_other j \<and> i_ref_id i = i_ref_id j \<longrightarrow> i_name i = i_name j)"

definition registered :: "schema \<Rightarrow> string \<Rightarrow> pyval \<Rightarrow> bool" where
  "registered s r n =
     (\<exists>i \<in> set (group_items s). i_ref_id i = r \<and> i_name i = n \<and> \<not> is_other i)"

lemma py_eq_PStr: "py_eq x (PStr n) = (x = PStr n)"
  by (cases x) auto

lemma exact_nameD: "exact_name n \<Longrightarrow> py_eq x n \<Longrightarrow> x = n"
  by (cases n; cases x) (auto simp: exact_name_def split: if_splits)

lemma existing_ref_ids_group_items: "existing_ref_ids s = map i_ref_id (group_items s)"
  by (simp add: existing_ref_ids_def group_items_def map_concat comp_def)

lemma create_constant_fresh:
  "fst (create_constant n k p) \<notin> i_ref_id ` set (group_items (p_schema p))"
proof -
  let ?p1 = "set_constants (with_constant k (s_constants (p_schema p))) p"
  obtain r p2 where g: "get_new_ref_id ?p1 = (r, p2)"
    by (cases "get_new_ref_id ?p1")
  have r: "fst (create_constant n k p) = r"
    using g by (simp add: create_constant_def)
  have "r \<notin> set (existing_ref_ids (p_schema ?p1))"
    using get_new_ref_id_props [OF g] by auto
  moreover have "group_items (p_schema ?p1) = group_items (p_schema p)"
    using group_items_with_constant
      [where s = "p_schema p" and k = k and cs = "s_constants (p_schema p)"]
    by (simp add: set_constants_def)
  ultimately show ?thesis
    by (simp add: r existing_ref_ids_group_items)
qed

lemma create_constant_frame:
  "s_rules (p_schema (snd (create_constant n k p))) = s_rules (p_schema p)
   \<and> s_name (p_schema (snd (create_constant n k p))) = s_name (p_schema p)
   \<and> s_include_in_reports (p_schema (snd (create_constant n k p)))
       = s_include_in_reports (p_schema p)
   \<and> s_merges (p_schema (snd (create_constant n k p))) = s_merges (p_schema p)"
proof -
  let ?p1 = "set_constants (with_constant k (s_constants (p_schema p))) p"
  obtain r p2 where g: "get_new_ref_id ?p1 = (r, p2)"
    by (cases "get_new_ref_id ?p1")
  have sch: "p_schema p2 = p_schema ?p1"
    using get_new_ref_id_schema [of ?p1] g by simp
  show ?thesis
    using g by (simp add: create_constant_def sch set_constants_def)
qed

lemma add_constant_frame:
  "s_rules (p_schema (snd (add_constant n k p))) = s_rules (p_schema p)
   \<and> s_name (p_schema (snd (add_constant n k p))) = s_name (p_schema p)
   \<and> s_include_in_reports (p_schema (snd (add_constant n k p)))
       = s_include_in_reports (p_schema p)
   \<and> s_merges (p_schema (snd (add_constant n k p))) = s_merges (p_schema p)"
  using create_constant_frame [of n k p]
  by (simp add: add_constant_def split: option.splits)

lemma create_constant_registered:
  assumes k: "k \<in> set constant_types" and inv: "same_ref_same_name (p_schema p)"
  shows "registered (p_schema (snd (create_constant n k p)))
          (fst (create_constant n k p)) n
       \<and> same_ref_same_name (p_schema (snd (create_constant n k p)))
       \<and> set (group_items (p_schema p))
           \<subseteq> set (group_items (p_schema (snd (create_constant n k p))))
       \<and> fst (create_constant n k p) \<noteq> []"
proof -
  let ?r = "fst (create_constant n k p)"
  let ?g = "\<lparr>i_ref_id = ?r, i_name = n, i_is_other = None\<rparr>"
  have items: "set (group_items (p_schema (snd (create_constant n k p))))
      = insert ?g (set (group_items (p_schema p)))"
    by (rule create_constant_items [OF k])
  have fresh: "\<forall>i \<in> set (group_items (p_schema p)). i_ref_id i \<noteq> ?r"
    using create_constant_fresh [of n k p] by (metis imageI)
  have reg: "registered (p_schema (snd (create_constant n k p))) ?r n"
    unfolding registered_def items by (rule bexI [of _ ?g]) (simp_all add: is_other_def)
  have inv': "same_ref_same_name (p_schema (snd (create_constant n k p)))"
    unfolding same_ref_same_name_def items
  proof (intro ballI impI)
    fix i j
    assume i: "i \<in> insert ?g (set (group_items (p_schema p)))"
      and j: "j \<in> insert ?g (set (group_items (p_schema p)))"
      and h: "\<not> is_other i \<and> \<not> is_other j \<and> i_ref_id i = i_ref_id j"
    show "i_name i = i_name j"
    proof (cases "i = ?g")
      case True
      have "j = ?g"
      proof (rule ccontr)
        assume "j \<noteq> ?g"
        with j have "j \<in> set (group_items (p_schema p))" by simp
        with fresh have "i_ref_id j \<noteq> ?r" by blast
        with h True show False by simp
      qed
      with True show ?thesis by simp
    next
      case False
      with i have i': "i \<in> set (group_items (p_schema p))" by simp
      with fresh have "i_ref_id i \<noteq> ?r" by blast
      with h have "j \<noteq> ?g" by auto
      with j have "j \<in> set (group_items (p_schema p))" by simp
      with i' h inv show ?thesis unfolding same_ref_same_name_def by blast
    qed
  qed
  obtain j where "?r = str_int j" using create_constant_str by blast
  then have ne: "?r \<noteq> []" by (simp add: str_int_nonempty)
  have sub: "set (group_items (p_schema p))
           \<subseteq> set (group_items (p_schema (snd (create_constant n k p))))"
    unfolding items by (rule subset_insertI)
  from reg inv' ne sub show ?thesis by blast
qed

lemma add_constant_registered:
  assumes k: "k \<in> set constant_types" and inv: "same_ref_same_name (p_schema p)"
    and exact: "exact_name n"
  shows "registered (p_schema (snd (add_constant n k p))) (fst (add_constant n k p)) n
       \<and> same_ref_same_name (p_schema (snd (add_constant n k p)))
       \<and> set (group_items (p_schema p)) \<subseteq> set (group_items (p_schema (snd (add_constant n k p))))
       \<and> fst (add_constant n k p) \<noteq> []"
proof -
  let ?P = "\<lambda>i. py_eq (i_name i) n \<and> \<not> is_other i"
  note created = create_constant_registered [OF k inv, where n = n]
  show ?thesis
  proof (cases "find ?P (group_items (p_schema p))")
    case None
    then have "add_constant n k p = create_constant n k p"
      by (simp add: add_constant_def get_ref_id_by_name_def)
    with created show ?thesis by simp
  next
    case (Some i)
    show ?thesis
    proof (cases "i_ref_id i = []")
      case True
      with Some have "add_constant n k p = create_constant n k p"
        by (simp add: add_constant_def get_ref_id_by_name_def)
      with created show ?thesis by simp
    next
      case False
      with Some have eq: "add_constant n k p = (i_ref_id i, p)"
        by (simp add: add_constant_def get_ref_id_by_name_def)
      from find_SomeD [OF Some] have mem: "i \<in> set (group_items (p_schema p))"
        and Pi: "py_eq (i_name i) n \<and> \<not> is_other i" by blast+
      from Pi have nm: "i_name i = n" and no: "\<not> is_other i"
        by (simp_all add: exact_nameD [OF exact])
      have "registered (p_schema p) (i_ref_id i) n"
        unfolding registered_def using mem nm no by blast
      with inv False show ?thesis by (simp add: eq)
    qed
  qed
qed

lemma resolve_registered:
  assumes inv: "same_ref_same_name (p_schema p)" and reg: "registered (p_schema p) r n"
  shows "get_name_by_ref_id p (PStr r) = n"
proof -
  let ?P = "\<lambda>i. py_eq (PStr (i_ref_id i)) (PStr r) \<and> \<not> is_other i"
  from reg obtain i where i: "i \<in> set (group_items (p_schema p))" "i_ref_id i = r"
    "i_name i = n" "\<not> is_other i"
    unfolding registered_def by blast
  have "find ?P (group_items (p_schema p)) \<noteq> None"
  proof
    assume "find ?P (group_items (p_schema p)) = None"
    then have "\<forall>x \<in> set (group_items (p_schema p)). \<not> ?P x"
      by (simp add: find_None_iff)
    with i show False by auto
  qed
  then obtain j where j: "find ?P (group_items (p_schema p)) = Some j"
    by blast
  from find_SomeD [OF j] have jm: "j \<in> set (group_items (p_schema p))"
    and Pj: "py_eq (PStr (i_ref_id j)) (PStr r) \<and> \<not> is_other j" by blast+
  from Pj have "i_ref_id j = r" and "\<not> is_other j" by simp_all
  with jm i inv have "i_name j = i_name i"
    unfolding same_ref_same_name_def by blast
  with j i show ?thesis by (simp add: get_name_by_ref_id_def)
qed

lemma registered_mono:
  "registered s r n \<Longrightarrow> set (group_items s) \<subseteq> set (group_items s') \<Longrightarrow> registered s' r n"
  unfolding registered_def by blast

lemma group_items_add_rule: "group_items (p_schema (add_rule a p)) = group_items (p_schema p)"
  by (simp add: add_rule_def group_items_def)

lemma registered_cong:
  "group_items s = group_items s' \<Longrightarrow> registered s r n = registered s' r n"
  by (simp add: registered_def)

lemma same_ref_same_name_cong:
  "group_items s = group_items s' \<Longrightarrow> same_ref_same_name s = same_ref_same_name s'"
  by (simp add: same_ref_same_name_def)

lemma group_items_reset:
  "group_items (p_schema (set_rules rs (set_include_in_reports v (set_name n p))))
     = group_items (p_schema p)"
  "group_items (p_schema (set_rules rs (set_name n p))) = group_items (p_schema p)"
  by (simp_all add: set_rules_def set_include_in_reports_def set_name_def group_items_def)

text \<open>
  What \<open>_add_constant\<close> followed by \<open>_add_rule\<close> leaves: the name is registered under
  the ref_id returned, the registry keeps its invariant and its items, and the rule is
  appended.
\<close>

lemma add_constant_step:
  assumes k: "k \<in> set constant_types" and inv: "same_ref_same_name (p_schema p)"
    and exact: "exact_name n"
  shows "fst (add_constant n k p) \<noteq> []
       \<and> registered (p_schema (add_rule a (snd (add_constant n k p)))) (fst (add_constant n k p)) n
       \<and> same_ref_same_name (p_schema (add_rule a (snd (add_constant n k p))))
       \<and> set (group_items (p_schema p))
           \<subseteq> set (group_items (p_schema (add_rule a (snd (add_constant n k p)))))
       \<and> s_rules (p_schema (add_rule a (snd (add_constant n k p)))) = s_rules (p_schema p) @ [a]
       \<and> s_name (p_schema (add_rule a (snd (add_constant n k p)))) = s_name (p_schema p)
       \<and> s_include_in_reports (p_schema (add_rule a (snd (add_constant n k p))))
           = s_include_in_reports (p_schema p)"
proof -
  let ?ac = "add_constant n k p"
  let ?p1 = "add_rule a (snd ?ac)"
  note reg = add_constant_registered [OF k inv exact]
  note frame = add_constant_frame [of n k p]
  have gi: "group_items (p_schema ?p1) = group_items (p_schema (snd ?ac))"
    by (rule group_items_add_rule)
  from reg have "registered (p_schema (snd ?ac)) (fst ?ac) n" by (rule conjunct1)
  then have r1: "registered (p_schema ?p1) (fst ?ac) n"
    by (simp only: registered_cong [OF gi])
  from reg have "same_ref_same_name (p_schema (snd ?ac))" by blast
  then have r2: "same_ref_same_name (p_schema ?p1)"
    by (simp only: same_ref_same_name_cong [OF gi])
  from reg have "set (group_items (p_schema p)) \<subseteq> set (group_items (p_schema (snd ?ac)))"
    by blast
  then have r3: "set (group_items (p_schema p)) \<subseteq> set (group_items (p_schema ?p1))"
    by (simp only: gi)
  have r4: "s_rules (p_schema ?p1) = s_rules (p_schema p) @ [a]"
    and r5: "s_name (p_schema ?p1) = s_name (p_schema p)"
    and r6: "s_include_in_reports (p_schema ?p1) = s_include_in_reports (p_schema p)"
    using frame by (simp_all add: add_rule_def)
  from reg have r7: "fst ?ac \<noteq> []" by blast
  show ?thesis
    by (intro conjI r1 r2 r3 r4 r5 r6 r7)
qed

subsection \<open>The two forms of a rule\<close>

text \<open>
  \<open>wrapped\<close> is what the two loops of \<open>_spec_rule_to_schema\<close> make of a rule: every string
  under a key of \<open>_single_item_list_keys\<close>, at the top level and in the clauses, becomes a
  list of one element. \<open>categorize_form\<close> is a categorize rule after it has got its ref_id.
\<close>

definition wrap :: "pyval \<Rightarrow> pyval" where
  "wrap v = (case v of PStr x \<Rightarrow> PList [v] | _ \<Rightarrow> v)"

definition wrap_clause :: "pyval \<Rightarrow> pyval" where
  "wrap_clause c = (case c of PDict e \<Rightarrow> PDict (to_list_items e) | _ \<Rightarrow> c)"

definition wrapped :: "(string \<times> pyval) list \<Rightarrow> (string \<times> pyval) list" where
  "wrapped d = cond_map wrap_clause (to_list_items d)"

definition categorize_form :: "string \<Rightarrow> (string \<times> pyval) list \<Rightarrow> (string \<times> pyval) list" where
  "categorize_form r d = ddel (dset (dset d ''to'' (PStr r)) ''ref_id'' (PStr r)) ''to''"

lemma to_list_items_on_keys: "to_list_items d = on_keys wrap d"
proof -
  have "(\<lambda>(k, v). case v of
                     PStr x \<Rightarrow> if k \<in> set single_item_list_keys then (k, PList [v]) else (k, v)
                   | _ \<Rightarrow> (k, v))
        = (\<lambda>(k, v). (k, if k \<in> set single_item_list_keys then wrap v else v))"
    by (intro ext) (auto simp: wrap_def split: pyval.splits)
  then show ?thesis by (simp add: to_list_items_def on_keys_def)
qed

lemma wrap_wrap: "wrap (wrap v) = wrap v"
  by (cases v) (simp_all add: wrap_def)

lemma wrap_clause_wrap_clause: "wrap_clause (wrap_clause c) = wrap_clause c"
  by (cases c) (simp_all add: wrap_clause_def to_list_items_on_keys on_keys_comp wrap_wrap)

lemma is_dict_wrap_clause: "is_dict c \<Longrightarrow> is_dict (wrap_clause c)"
  by (cases c) (simp_all add: wrap_clause_def)

lemma first_elem_wrap:
  "entry_scalar k v \<Longrightarrow> k \<in> set single_item_list_keys \<Longrightarrow> first_elem (wrap v) = v"
  by (cases v) (simp_all add: entry_scalar_def wrap_def first_elem_def)

lemma entry_ok_wrap: "entry_scalar k v \<Longrightarrow> entry_ok k (wrap v)"
  by (cases v) (simp_all add: entry_scalar_def entry_ok_def wrap_def)

lemma single_ok_on_keys_wrap: "scalar_items d \<Longrightarrow> single_ok (on_keys wrap d)"
proof (induction d)
  case Nil
  then show ?case by (simp add: on_keys_def single_ok_def)
next
  case (Cons a d)
  obtain k v where a: "a = (k, v)" by (cases a)
  from Cons.prems a have e: "entry_scalar k v" and s: "scalar_items d"
    by (simp_all add: scalar_items_Cons)
  have "on_keys wrap ((k, v) # d)
          = (k, if k \<in> set single_item_list_keys then wrap v else v) # on_keys wrap d"
    by (simp add: on_keys_def)
  then show ?case
    using Cons.IH [OF s] entry_ok_wrap [OF e] entry_scalar_ok [OF e]
    by (simp add: a single_ok_Cons)
qed

lemma unwrap_on_keys_wrap: "scalar_items d \<Longrightarrow> on_keys first_elem (on_keys wrap d) = d"
proof (induction d)
  case Nil
  then show ?case by (simp add: on_keys_def)
next
  case (Cons a d)
  obtain k v where a: "a = (k, v)" by (cases a)
  from Cons.prems a have e: "entry_scalar k v" and s: "scalar_items d"
    by (simp_all add: scalar_items_Cons)
  have "on_keys first_elem (on_keys wrap ((k, v) # d))
          = (k, if k \<in> set single_item_list_keys then first_elem (wrap v) else v)
              # on_keys first_elem (on_keys wrap d)"
    by (simp add: on_keys_def)
  then show ?case
    using Cons.IH [OF s] first_elem_wrap [OF e] by (simp add: a)
qed

lemma clause_round_trip: "clause_scalar c \<Longrightarrow> clause_single (wrap_clause c) = c"
  by (cases c)
     (simp_all add: clause_scalar_def clause_single_def wrap_clause_def single_element_def
        to_list_items_on_keys unwrap_on_keys_wrap)

lemma clause_ok_wrap_clause: "clause_scalar c \<Longrightarrow> clause_ok (wrap_clause c)"
  by (cases c)
     (simp_all add: clause_scalar_def clause_ok_def wrap_clause_def to_list_items_on_keys
        single_ok_on_keys_wrap)

lemma condition_on_keys: "dget (on_keys w d) ''condition'' = dget d ''condition''"
  by (simp add: dget_on_keys keys_simps)

lemma wf_condition_on_keys: "wf_condition (on_keys w d) = wf_condition d"
  by (rule wf_condition_cong) (rule condition_on_keys)

lemma clauses_of_on_keys: "clauses_of (on_keys w d) = clauses_of d"
  by (rule clauses_of_cong) (rule condition_on_keys)

lemma wf_condition_update:
  "k \<noteq> ''condition'' \<Longrightarrow> wf_condition (AList.update k v d) = wf_condition d"
  by (rule wf_condition_cong) (simp add: dget_update)

lemma wf_condition_delete:
  "k \<noteq> ''condition'' \<Longrightarrow> wf_condition (AList.delete k d) = wf_condition d"
  by (rule wf_condition_cong) (simp add: dget_delete)

lemma clauses_of_update:
  "k \<noteq> ''condition'' \<Longrightarrow> clauses_of (AList.update k v d) = clauses_of d"
  by (rule clauses_of_cong) (simp add: dget_update)

lemma clauses_of_delete:
  "k \<noteq> ''condition'' \<Longrightarrow> clauses_of (AList.delete k d) = clauses_of d"
  by (rule clauses_of_cong) (simp add: dget_delete)

lemma wrapped_update:
  "k \<notin> set single_item_list_keys \<Longrightarrow> k \<noteq> ''condition'' \<Longrightarrow>
   wrapped (AList.update k v d) = AList.update k v (wrapped d)"
  by (simp add: wrapped_def to_list_items_on_keys on_keys_update cond_map_update)

lemma wrapped_delete:
  "k \<noteq> ''condition'' \<Longrightarrow> wrapped (AList.delete k d) = AList.delete k (wrapped d)"
  by (simp add: wrapped_def to_list_items_on_keys on_keys_delete cond_map_delete)

lemma map_of_wrapped:
  "k \<notin> set single_item_list_keys \<Longrightarrow> k \<noteq> ''condition'' \<Longrightarrow>
   map_of (wrapped d) k = map_of d k"
  by (simp add: wrapped_def to_list_items_on_keys map_of_cond_map map_of_on_keys)

lemma dget_wrapped:
  "k \<notin> set single_item_list_keys \<Longrightarrow> k \<noteq> ''condition'' \<Longrightarrow>
   dget (wrapped d) k = dget d k"
  by (simp add: dget_def map_of_wrapped)

lemma wf_condition_wrapped: "wf_condition d \<Longrightarrow> wf_condition (wrapped d)"
  unfolding wrapped_def to_list_items_on_keys
  by (rule wf_condition_cond_map) (simp_all add: wf_condition_on_keys is_dict_wrap_clause)

lemma clauses_of_wrapped:
  "wf_condition d \<Longrightarrow> clauses_of (wrapped d) = map wrap_clause (clauses_of d)"
  by (simp add: wrapped_def to_list_items_on_keys clauses_of_cond_map wf_condition_on_keys
        clauses_of_on_keys)

lemma wrapped_wrapped:
  assumes wf: "wf_condition d"
  shows "wrapped (wrapped d) = wrapped d"
proof -
  have wf2: "wf_condition (on_keys wrap (on_keys wrap d))"
    using wf by (simp add: wf_condition_on_keys)
  have "wrapped (wrapped d)
      = cond_map wrap_clause (cond_map wrap_clause (on_keys wrap (on_keys wrap d)))"
    by (simp add: wrapped_def to_list_items_on_keys on_keys_cond_map)
  also have "\<dots> = cond_map (\<lambda>c. wrap_clause (wrap_clause c)) (on_keys wrap (on_keys wrap d))"
    by (rule cond_map_comp [OF wf2])
  also have "\<dots> = cond_map wrap_clause (on_keys wrap d)"
    by (simp add: wrap_clause_wrap_clause on_keys_comp wrap_wrap)
  finally show ?thesis
    by (simp add: wrapped_def to_list_items_on_keys)
qed

lemma single_ok_cond_map: "single_ok (cond_map f d) = single_ok d"
  by (simp add: cond_map_def dset_def single_ok_update keys_simps split: pyval.splits)

text \<open>
  A scalar rule with a well-formed condition: its wrapped form is well formed for the
  derivation, and unwrapping gives the rule back.
\<close>

lemma unwrapped_wrapped:
  assumes sc: "scalar_rule (PDict d)" and wf: "wf_condition d"
  shows "unwrapped (wrapped d) = d"
proof -
  from sc have si: "scalar_items d" and cs: "list_all clause_scalar (clauses_of d)"
    by (simp_all add: scalar_rule_def)
  have wf2: "wf_condition (on_keys first_elem (on_keys wrap d))"
    using wf by (simp add: wf_condition_on_keys)
  have "unwrapped (wrapped d)
      = cond_map clause_single (cond_map wrap_clause (on_keys first_elem (on_keys wrap d)))"
    by (simp add: unwrapped_def wrapped_def single_element_def to_list_items_on_keys
          on_keys_cond_map)
  also have "\<dots> = cond_map (\<lambda>c. clause_single (wrap_clause c))
                      (on_keys first_elem (on_keys wrap d))"
    by (rule cond_map_comp [OF wf2])
  also have "\<dots> = cond_map (\<lambda>c. clause_single (wrap_clause c)) d"
    by (simp add: unwrap_on_keys_wrap [OF si])
  also have "\<dots> = cond_map (\<lambda>c. c) d"
    using cs by (intro cond_map_cong) (simp add: list_all_iff clause_round_trip)
  also have "\<dots> = d"
    by (rule cond_map_id [OF wf])
  finally show ?thesis .
qed

lemma unwrapped_scalar:
  assumes sc: "scalar_rule (PDict d)" and wf: "wf_condition d"
  shows "unwrapped d = d"
proof -
  from sc have si: "scalar_items d" and cs: "list_all clause_scalar (clauses_of d)"
    by (simp_all add: scalar_rule_def)
  have "unwrapped d = cond_map clause_single d"
    by (simp add: unwrapped_def single_element_scalar [OF si])
  also have "\<dots> = cond_map (\<lambda>c. c) d"
    using cs by (intro cond_map_cong) (simp add: list_all_iff clause_single_scalar)
  also have "\<dots> = d"
    by (rule cond_map_id [OF wf])
  finally show ?thesis .
qed

lemma rule_ok_wrapped:
  assumes sc: "scalar_rule (PDict d)" and wf: "wf_condition d"
  shows "rule_ok (PDict (wrapped d))"
proof -
  from sc have si: "scalar_items d" and cs: "list_all clause_scalar (clauses_of d)"
    by (simp_all add: scalar_rule_def)
  have "single_ok (wrapped d)"
    by (simp add: wrapped_def to_list_items_on_keys single_ok_cond_map
          single_ok_on_keys_wrap [OF si])
  moreover have "list_all clause_ok (clauses_of (wrapped d))"
    using cs by (simp add: clauses_of_wrapped [OF wf] list_all_iff clause_ok_wrap_clause)
  ultimately show ?thesis by (simp add: rule_ok_def)
qed

lemma wf_schema_rule_wrapped:
  "wf_schema_rule (PDict d) \<Longrightarrow> wf_schema_rule (PDict (wrapped d))"
  by (simp add: wf_schema_rule_def dget_wrapped map_of_wrapped keys_simps wf_condition_wrapped)

lemma resolved_wrapped: "resolved p (wrapped d) = wrapped (resolved p d)"
  by (simp add: resolved_def renamed_def reference_def dget_wrapped keys_simps dset_def ddel_def
        wrapped_update wrapped_delete)

lemma scalar_rule_resolved:
  "scalar_rule (PDict d) \<Longrightarrow> scalar_rule (PDict (resolved p d))"
  by (simp add: scalar_rule_def scalar_items_resolved
        clauses_of_cong [OF condition_resolved [of p d]])

lemma wf_condition_resolved_plain: "wf_condition (resolved p d) = wf_condition d"
  by (rule wf_condition_cong) (rule condition_resolved)

text \<open>
  One pass of the derivation over a scalar rule, wrapped or not, gives the rule with its
  reference resolved.
\<close>

lemma spec_rule_wrapped:
  assumes sc: "scalar_rule (PDict d)" and wf: "wf_condition d"
  shows "spec_rule p (wrapped d) = resolved p d" and "spec_rule p d = resolved p d"
proof -
  have sc': "scalar_rule (PDict (resolved p d))"
    by (rule scalar_rule_resolved [OF sc])
  have wf': "wf_condition (resolved p d)"
    using wf by (simp add: wf_condition_resolved_plain)
  show "spec_rule p (wrapped d) = resolved p d"
    by (simp add: spec_rule_def resolved_wrapped unwrapped_wrapped [OF sc' wf'])
  show "spec_rule p d = resolved p d"
    by (simp add: spec_rule_def unwrapped_scalar [OF sc' wf'])
qed

subsection \<open>One rule of a spec\<close>

lemma each_clause_wrap:
  "list_all is_dict cs \<Longrightarrow>
   each_clause (\<lambda>d. Inr (to_list_items d)) cs = Inr (map wrap_clause cs)"
proof (induction cs)
  case Nil
  then show ?case by simp
next
  case (Cons c cs)
  from Cons.prems obtain e where c: "c = PDict e" by (cases c) simp_all
  from Cons.prems Cons.IH
  have "each_clause (\<lambda>d. Inr (to_list_items d)) cs = Inr (map wrap_clause cs)" by simp
  then show ?case by (simp add: c wrap_clause_def)
qed

lemma over_condition_wrap:
  assumes wf: "wf_condition d"
  shows "over_condition (\<lambda>d. Inr (to_list_items d)) d = Inr (cond_map wrap_clause d)"
proof (cases "truthy (dget d ''condition'')")
  case False
  then show ?thesis by (simp add: over_condition_def cond_map_falsy)
next
  case True
  from wf True obtain cond cs where cond: "dget d ''condition'' = PDict cond"
    and cl: "map_of cond ''clauses'' = Some (PList cs)" and dicts: "list_all is_dict cs"
    and cls: "clauses_of d = cs"
    by (rule wf_conditionD)
  show ?thesis
    using True cond cl
    by (simp add: over_condition_def cls each_clause_wrap [OF dicts] cond_map_def)
qed

lemma rule_to_schema_form_filter:
  assumes wf: "wf_condition d" and rt: "rule_type \<noteq> ''categorize''"
  shows "rule_to_schema_form rule_type ref d = Inr (wrapped (dset d ''to'' (PStr ref)))"
proof -
  have "wf_condition (to_list_items (dset d ''to'' (PStr ref)))"
    using wf by (simp add: to_list_items_on_keys wf_condition_on_keys dset_def
          wf_condition_update)
  then show ?thesis
    using rt by (simp add: rule_to_schema_form_def Let_def over_condition_wrap wrapped_def)
qed

lemma rule_to_schema_form_categorize:
  assumes wf: "wf_condition d"
  shows "rule_to_schema_form ''categorize'' ref d = Inr (wrapped (categorize_form ref d))"
proof -
  have "wf_condition (to_list_items (categorize_form ref d))"
    using wf by (simp add: to_list_items_on_keys wf_condition_on_keys categorize_form_def
          dset_def ddel_def wf_condition_update wf_condition_delete)
  then show ?thesis
    by (simp add: rule_to_schema_form_def Let_def over_condition_wrap wrapped_def
          categorize_form_def dset_def dget_update_same)
qed

lemma lower_filter: "lower ''filter'' = ''filter''"
  by (simp add: lower_def lower_char_def)

lemma spec_rule_to_schema_filter:
  assumes ha: "h a = PDict d" and ty: "map_of d ''type'' = Some (PStr ''filter'')"
    and to: "map_of d ''to'' = Some t" and t: "truthy t" and wf: "wf_condition d"
  shows "spec_rule_to_schema a (h, p)
     = Inr (h(a := PDict (wrapped (dset d ''to''
                                     (PStr (fst (add_constant t ''Static Group'' p)))))),
            add_rule a (snd (add_constant t ''Static Group'' p)))"
proof -
  have same: "dset d ''type'' (PStr ''filter'') = d"
    using ty by (simp add: dset_def update_triv)
  obtain ref p1 where ac: "add_constant t ''Static Group'' p = (ref, p1)"
    by (cases "add_constant t ''Static Group'' p")
  have form: "rule_to_schema_form ''filter'' ref d = Inr (wrapped (dset d ''to'' (PStr ref)))"
    by (rule rule_to_schema_form_filter [OF wf]) simp
  show ?thesis
    using t by (simp add: spec_rule_to_schema_def ha dsub_def to ty lower_filter same ac form)
qed

lemma spec_rule_to_schema_categorize:
  assumes ha: "h a = PDict d" and ty: "map_of d ''type'' = Some (PStr ty_v)"
    and low: "lower ty_v = ''categorize''"
    and to: "map_of d ''to'' = Some t" and name: "truthy (group_name d)"
    and wf: "wf_condition d"
  shows "spec_rule_to_schema a (h, p)
     = Inr (h(a := PDict (wrapped (categorize_form
                (fst (add_constant (group_name d) ''Dynamic Group Block'' p)) d))),
            add_rule a (snd (add_constant (group_name d) ''Dynamic Group Block'' p)))"
proof -
  obtain ref p1 where ac: "add_constant (group_name d) ''Dynamic Group Block'' p = (ref, p1)"
    by (cases "add_constant (group_name d) ''Dynamic Group Block'' p")
  have form: "rule_to_schema_form ''categorize'' ref d = Inr (wrapped (categorize_form ref d))"
    by (rule rule_to_schema_form_categorize [OF wf])
  have nm: "(if truthy t then Inr t else dsub d ''ref_id'') = Inr (group_name d)"
  proof (cases "truthy t")
    case True
    then show ?thesis using to by (simp add: group_name_def dget_def)
  next
    case False
    with to have g: "group_name d = dget d ''ref_id''" by (simp add: group_name_def dget_def)
    with name have "map_of d ''ref_id'' \<noteq> None"
      by (auto simp: dget_def split: option.splits)
    with False g show ?thesis by (auto simp: dsub_def dget_def)
  qed
  show ?thesis
    by (simp add: spec_rule_to_schema_def ha dsub_def [of d "''to''"] dsub_def [of d "''type''"]
          to ty low nm ac form)
qed

lemma spec_rule_to_schema_no_to:
  "h a = PDict d \<Longrightarrow> map_of d ''to'' = None \<Longrightarrow>
   spec_rule_to_schema a (h, p) = Inl (KeyError ''to'')"
  by (simp add: spec_rule_to_schema_def dsub_def)

subsection \<open>Stable rules\<close>

text \<open>
  A spec rule is stable when the translation leaves in it nothing it cannot give back:
  its type is \<open>categorize\<close> in any capitalisation, or exactly \<open>filter\<close> with no truthy
  \<open>ref_id\<close>; its group name, \<open>to\<close> when truthy and \<open>ref_id\<close> otherwise, is truthy and
  exact; no \<open>field\<close> or \<open>tag_field\<close> is a list, at its top level or in a clause; its
  condition is well formed.

  A rule object of the spec may stand at several positions of \<open>rules\<close>. A filter rule is
  then translated again each time: its \<open>to\<close> holds a ref_id by then, which is registered
  as the name of a new group. \<open>chain s k t n\<close>: following the ref_id \<open>t\<close> through the
  registry \<open>k\<close> times leads to the name \<open>n\<close>. A categorize rule has lost its key \<open>to\<close>
  and the second translation raises. \<open>applied s b k x\<close>: \<open>x\<close> is the rule object that
  was \<open>b\<close> in the spec, after \<open>k\<close> translations.
\<close>

definition is_categorize :: "(string \<times> pyval) list \<Rightarrow> bool" where
  "is_categorize d = (case dget d ''type'' of PStr t \<Rightarrow> lower t = ''categorize'' | _ \<Rightarrow> False)"

definition is_filter :: "(string \<times> pyval) list \<Rightarrow> bool" where
  "is_filter d = (dget d ''type'' = PStr ''filter'' \<and> \<not> truthy (dget d ''ref_id''))"

definition stable_rule :: "pyval \<Rightarrow> bool" where
  "stable_rule r =
     (case r of
        PDict d \<Rightarrow>
          (is_categorize d \<or> is_filter d) \<and> truthy (group_name d) \<and> exact_name (group_name d)
          \<and> scalar_rule r \<and> wf_condition d
      | _ \<Rightarrow> False)"

fun chain :: "schema \<Rightarrow> nat \<Rightarrow> pyval \<Rightarrow> pyval \<Rightarrow> bool" where
  "chain s 0 t n = (t = n)"
| "chain s (Suc k) t n =
     (\<exists>r m. t = PStr r \<and> r \<noteq> [] \<and> registered s r m \<and> chain s k m n)"

definition applied :: "schema \<Rightarrow> pyval \<Rightarrow> nat \<Rightarrow> pyval \<Rightarrow> bool" where
  "applied s b k x =
     (case b of
        PDict d \<Rightarrow>
          (if k = 0 then x = b
           else if is_categorize d then
             k = 1 \<and> (\<exists>r. r \<noteq> [] \<and> registered s r (group_name d)
                         \<and> x = PDict (wrapped (categorize_form r d)))
           else (\<exists>r. chain s k (PStr r) (group_name d)
                     \<and> x = PDict (wrapped (dset d ''to'' (PStr r)))))
      | _ \<Rightarrow> False)"

lemma chain_mono:
  "chain s k t n \<Longrightarrow> set (group_items s) \<subseteq> set (group_items s') \<Longrightarrow> chain s' k t n"
proof (induction k arbitrary: t)
  case 0
  then show ?case by simp
next
  case (Suc k)
  from Suc.prems(1) obtain r m where t: "t = PStr r" "r \<noteq> []" and reg: "registered s r m"
    and ch: "chain s k m n"
    by auto
  from reg Suc.prems(2) have "registered s' r m" by (rule registered_mono)
  moreover from ch Suc.prems(2) have "chain s' k m n" by (rule Suc.IH)
  ultimately show ?case using t by auto
qed

lemma chain_name:
  "chain s k t n \<Longrightarrow> truthy n \<Longrightarrow> exact_name n \<Longrightarrow> truthy t \<and> exact_name t"
  by (cases k) (auto simp: exact_name_def)

lemma applied_mono:
  assumes "applied s b k x" and sub: "set (group_items s) \<subseteq> set (group_items s')"
  shows "applied s' b k x"
proof (cases b)
  case (PDict d)
  show ?thesis
  proof (cases "k = 0")
    case True
    with assms(1) PDict show ?thesis by (simp add: applied_def)
  next
    case False
    show ?thesis
    proof (cases "is_categorize d")
      case True
      with assms(1) PDict False obtain r where k: "k = 1" and r: "r \<noteq> []"
        and reg: "registered s r (group_name d)"
        and x: "x = PDict (wrapped (categorize_form r d))"
        by (auto simp: applied_def)
      from reg sub have "registered s' r (group_name d)" by (rule registered_mono)
      with k r x True PDict show ?thesis by (auto simp: applied_def)
    next
      case nc: False
      with assms(1) PDict False obtain r where ch: "chain s k (PStr r) (group_name d)"
        and x: "x = PDict (wrapped (dset d ''to'' (PStr r)))"
        by (auto simp: applied_def)
      from ch sub have "chain s' k (PStr r) (group_name d)" by (rule chain_mono)
      with x nc False PDict show ?thesis by (auto simp: applied_def)
    qed
  qed
qed (use assms(1) in \<open>simp_all add: applied_def\<close>)

text \<open>A stable filter rule, and the same rule with another value under \<open>to\<close>.\<close>

lemma stable_filter:
  assumes st: "stable_rule (PDict d)" and nc: "\<not> is_categorize d"
  shows "map_of d ''type'' = Some (PStr ''filter'')" and "map_of d ''to'' = Some (group_name d)"
    and "\<not> truthy (dget d ''ref_id'')"
proof -
  from st nc have f: "is_filter d" and nm: "truthy (group_name d)"
    by (simp_all add: stable_rule_def)
  from f show ty: "map_of d ''type'' = Some (PStr ''filter'')"
    by (auto simp: is_filter_def dget_def split: option.splits)
  from f show nr: "\<not> truthy (dget d ''ref_id'')" by (simp add: is_filter_def)
  from nm nr have tt: "truthy (dget d ''to'')" and g: "group_name d = dget d ''to''"
    by (auto simp: group_name_def split: if_splits)
  from tt have "map_of d ''to'' = Some (dget d ''to'')"
    by (auto simp: dget_def split: option.splits)
  with g show "map_of d ''to'' = Some (group_name d)" by simp
qed

lemma stable_parts:
  assumes st: "stable_rule (PDict d)"
  shows "scalar_rule (PDict d)" and "wf_condition d" and "truthy (group_name d)"
    and "exact_name (group_name d)"
  using st by (simp_all add: stable_rule_def)

lemma scalar_rule_update:
  "k \<notin> set single_item_list_keys \<Longrightarrow> k \<noteq> ''condition'' \<Longrightarrow> scalar_rule (PDict d) \<Longrightarrow>
   scalar_rule (PDict (AList.update k v d))"
  by (simp add: scalar_rule_def scalar_items_update clauses_of_update)

lemma scalar_rule_delete:
  "k \<noteq> ''condition'' \<Longrightarrow> scalar_rule (PDict d) \<Longrightarrow> scalar_rule (PDict (AList.delete k d))"
  by (simp add: scalar_rule_def scalar_items_delete clauses_of_delete)

lemma retarget:
  assumes st: "stable_rule (PDict d)" and nc: "\<not> is_categorize d"
  shows "scalar_rule (PDict (dset d ''to'' t))" and "wf_condition (dset d ''to'' t)"
    and "map_of (dset d ''to'' t) ''type'' = Some (PStr ''filter'')"
    and "map_of (dset d ''to'' t) ''to'' = Some t"
    and "resolved p (dset d ''to'' t) = dset d ''to'' (get_name_by_ref_id p t)"
    and "dset d ''to'' (group_name d) = d"
proof -
  note f = stable_filter [OF st nc]
  note s = stable_parts [OF st]
  show "scalar_rule (PDict (dset d ''to'' t))"
    using s(1) by (simp add: dset_def scalar_rule_update keys_simps)
  show "wf_condition (dset d ''to'' t)"
    using s(2) by (simp add: dset_def wf_condition_update)
  show "map_of (dset d ''to'' t) ''type'' = Some (PStr ''filter'')"
    using f(1) by (simp add: dset_def update_conv')
  show "map_of (dset d ''to'' t) ''to'' = Some t"
    by (simp add: dset_def update_conv')
  have nr: "\<not> truthy (dget (dset d ''to'' t) ''ref_id'')"
    using f(3) by (simp add: dset_def dget_update)
  show "resolved p (dset d ''to'' t) = dset d ''to'' (get_name_by_ref_id p t)"
    using nr by (simp add: resolved_def renamed_def reference_def)
                (simp add: dset_def dget_update_same)
  show "dset d ''to'' (group_name d) = d"
    using f(2) by (simp add: dset_def update_triv)
qed

lemma spec_rule_to_schema_retarget:
  assumes st: "stable_rule (PDict d)" and nc: "\<not> is_categorize d"
    and ha: "h a = PDict (dset d ''to'' t) \<or> h a = PDict (wrapped (dset d ''to'' t))"
    and t: "truthy t"
  shows "spec_rule_to_schema a (h, p)
     = Inr (h(a := PDict (wrapped (dset d ''to''
                                     (PStr (fst (add_constant t ''Static Group'' p)))))),
            add_rule a (snd (add_constant t ''Static Group'' p)))"
proof -
  let ?y = "dset d ''to'' t"
  let ?ref = "PStr (fst (add_constant t ''Static Group'' p))"
  note r = retarget(1-4) [OF st nc, where t = t]
  have last: "dset ?y ''to'' ?ref = dset d ''to'' ?ref"
    by (simp add: dset_def)
  from ha show ?thesis
  proof
    assume plain: "h a = PDict ?y"
    show ?thesis
      using spec_rule_to_schema_filter [where h = h and a = a and d = ?y and t = t and p = p,
          OF plain r(3) r(4) t r(2)]
      by (simp only: last)
  next
    assume w: "h a = PDict (wrapped ?y)"
    have ty: "map_of (wrapped ?y) ''type'' = Some (PStr ''filter'')"
      using r(3) by (simp add: map_of_wrapped keys_simps)
    have to: "map_of (wrapped ?y) ''to'' = Some t"
      using r(4) by (simp add: map_of_wrapped keys_simps)
    have wf: "wf_condition (wrapped ?y)"
      by (rule wf_condition_wrapped [OF r(2)])
    have wf2: "wf_condition (dset d ''to'' ?ref)"
      by (rule retarget(2) [OF st nc])
    have "wrapped (dset (wrapped ?y) ''to'' ?ref) = wrapped (wrapped (dset ?y ''to'' ?ref))"
      by (simp add: dset_def wrapped_update keys_simps)
    also have "\<dots> = wrapped (dset d ''to'' ?ref)"
      by (simp only: last wrapped_wrapped [OF wf2])
    finally have again: "wrapped (dset (wrapped ?y) ''to'' ?ref) = wrapped (dset d ''to'' ?ref)" .
    show ?thesis
      using spec_rule_to_schema_filter [where h = h and a = a and d = "wrapped ?y" and t = t
          and p = p, OF w ty to t wf]
      by (simp only: again)
  qed
qed

lemma applied_filter:
  assumes st: "stable_rule (PDict d)" and nc: "\<not> is_categorize d"
    and ap: "applied s (PDict d) k x"
  shows "\<exists>t. chain s k t (group_name d)
           \<and> (x = PDict (dset d ''to'' t) \<or> x = PDict (wrapped (dset d ''to'' t)))"
proof (cases "k = 0")
  case True
  with ap have "x = PDict d" by (simp add: applied_def)
  then have "x = PDict (dset d ''to'' (group_name d))"
    by (simp add: retarget(6) [OF st nc])
  with True show ?thesis by auto
next
  case False
  with ap nc obtain r where "chain s k (PStr r) (group_name d)"
    and "x = PDict (wrapped (dset d ''to'' (PStr r)))"
    by (auto simp: applied_def)
  then show ?thesis by blast
qed

lemma categorize_form_no_to: "map_of (wrapped (categorize_form r d)) ''to'' = None"
  by (simp add: map_of_wrapped keys_simps categorize_form_def ddel_def delete_conv')

lemma lower_categorize: "lower ''categorize'' = ''categorize''"
  by (simp add: lower_def lower_char_def)

lemma constant_types_simps:
  "''Static Group'' \<in> set constant_types" "''Dynamic Group Block'' \<in> set constant_types"
  by (simp_all add: constant_types_def)

subsection \<open>Applying a spec\<close>

lemma spec_rule_to_schema_step:
  assumes st: "stable_rule b" and inv: "same_ref_same_name (p_schema p)"
    and ap: "applied (p_schema p) b k (h a)"
    and run: "spec_rule_to_schema a (h, p) = Inr (h1, p1)"
  shows "(\<exists>x. h1 = h(a := x) \<and> applied (p_schema p1) b (Suc k) x)
       \<and> same_ref_same_name (p_schema p1)
       \<and> set (group_items (p_schema p)) \<subseteq> set (group_items (p_schema p1))
       \<and> s_rules (p_schema p1) = s_rules (p_schema p) @ [a]
       \<and> s_name (p_schema p1) = s_name (p_schema p)
       \<and> s_include_in_reports (p_schema p1) = s_include_in_reports (p_schema p)"
proof -
  from st obtain d where b: "b = PDict d" by (cases b) (simp_all add: stable_rule_def)
  from st b have std: "stable_rule (PDict d)" by simp
  note parts = stable_parts [OF std]
  show ?thesis
  proof (cases "is_categorize d")
    case True
    then obtain tv where tyv: "dget d ''type'' = PStr tv" and low: "lower tv = ''categorize''"
      by (auto simp: is_categorize_def split: pyval.splits)
    from tyv have ty: "map_of d ''type'' = Some (PStr tv)"
      by (auto simp: dget_def split: option.splits)
    show ?thesis
    proof (cases "k = 0")
      case k0: True
      with ap b have ha: "h a = PDict d" by (simp add: applied_def)
      show ?thesis
      proof (cases "map_of d ''to''")
        case None
        with ha run spec_rule_to_schema_no_to [of h a d p] show ?thesis by simp
      next
        case (Some t0)
        let ?ac = "add_constant (group_name d) ''Dynamic Group Block'' p"
        from spec_rule_to_schema_categorize
          [where h = h and a = a and d = d and p = p, OF ha ty low Some parts(3) parts(2)] run
        have h1: "h1 = h(a := PDict (wrapped (categorize_form (fst ?ac) d)))"
          and p1: "p1 = add_rule a (snd ?ac)"
          by simp_all
        note step = add_constant_step [OF constant_types_simps(2) inv parts(4), where a = a]
        from step have reg: "registered (p_schema p1) (fst ?ac) (group_name d)"
          and ne: "fst ?ac \<noteq> []"
          by (simp_all add: p1)
        have "applied (p_schema p1) b (Suc k) (PDict (wrapped (categorize_form (fst ?ac) d)))"
          using reg ne True k0 by (auto simp: applied_def b)
        with h1 have "\<exists>x. h1 = h(a := x) \<and> applied (p_schema p1) b (Suc k) x" by blast
        with step show ?thesis by (simp add: p1)
      qed
    next
      case False
      with ap b True obtain r where "h a = PDict (wrapped (categorize_form r d))"
        by (auto simp: applied_def)
      with run spec_rule_to_schema_no_to [of h a "wrapped (categorize_form r d)" p]
      show ?thesis by (simp add: categorize_form_no_to)
    qed
  next
    case False
    from applied_filter [OF std False] ap b obtain t
      where ch: "chain (p_schema p) k t (group_name d)"
        and ha: "h a = PDict (dset d ''to'' t) \<or> h a = PDict (wrapped (dset d ''to'' t))"
      by blast
    from chain_name [OF ch parts(3) parts(4)] have t: "truthy t" and ex: "exact_name t"
      by simp_all
    let ?ac = "add_constant t ''Static Group'' p"
    from spec_rule_to_schema_retarget
      [where h = h and a = a and d = d and t = t and p = p, OF std False ha t] run
    have h1: "h1 = h(a := PDict (wrapped (dset d ''to'' (PStr (fst ?ac)))))"
      and p1: "p1 = add_rule a (snd ?ac)"
      by simp_all
    note step = add_constant_step [OF constant_types_simps(1) inv ex, where a = a]
    from step have reg: "registered (p_schema p1) (fst ?ac) t" and ne: "fst ?ac \<noteq> []"
      and sub: "set (group_items (p_schema p)) \<subseteq> set (group_items (p_schema p1))"
      by (simp_all add: p1)
    from ch sub have "chain (p_schema p1) k t (group_name d)" by (rule chain_mono)
    with reg ne have "chain (p_schema p1) (Suc k) (PStr (fst ?ac)) (group_name d)"
      by auto
    then have "applied (p_schema p1) b (Suc k)
        (PDict (wrapped (dset d ''to'' (PStr (fst ?ac)))))"
      using False unfolding applied_def b by auto
    with h1 have "\<exists>x. h1 = h(a := x) \<and> applied (p_schema p1) b (Suc k) x" by blast
    with step show ?thesis by (simp add: p1)
  qed
qed

lemma spec_rules_to_schema_applied:
  assumes "\<forall>a \<in> A. stable_rule (h0 a)" and "set as \<subseteq> A"
    and "same_ref_same_name (p_schema p)"
    and "\<forall>a \<in> A. applied (p_schema p) (h0 a) (cnt a) (h a)"
    and "spec_rules_to_schema as (h, p) = Inr (h', p')"
  shows "same_ref_same_name (p_schema p')
       \<and> (\<forall>a \<in> A. applied (p_schema p') (h0 a) (cnt a + count_list as a) (h' a))
       \<and> s_rules (p_schema p') = s_rules (p_schema p) @ as
       \<and> s_name (p_schema p') = s_name (p_schema p)
       \<and> s_include_in_reports (p_schema p') = s_include_in_reports (p_schema p)"
  using assms(2-5)
proof (induction as arbitrary: h p cnt)
  case Nil
  then show ?case by simp
next
  case (Cons a as)
  note st = assms(1)
  from Cons.prems(1) have a: "a \<in> A" and sub: "set as \<subseteq> A" by simp_all
  from Cons.prems(4) obtain h1 p1 where s1: "spec_rule_to_schema a (h, p) = Inr (h1, p1)"
    and rest: "spec_rules_to_schema as (h1, p1) = Inr (h', p')"
    by (cases "spec_rule_to_schema a (h, p)") auto
  from st a have sta: "stable_rule (h0 a)" by blast
  from Cons.prems(3) a have apa: "applied (p_schema p) (h0 a) (cnt a) (h a)" by blast
  from spec_rule_to_schema_step [OF sta Cons.prems(2) apa s1]
  obtain x where h1: "h1 = h(a := x)" and apx: "applied (p_schema p1) (h0 a) (Suc (cnt a)) x"
    and inv1: "same_ref_same_name (p_schema p1)"
    and sub1: "set (group_items (p_schema p)) \<subseteq> set (group_items (p_schema p1))"
    and rules1: "s_rules (p_schema p1) = s_rules (p_schema p) @ [a]"
    and name1: "s_name (p_schema p1) = s_name (p_schema p)"
    and inc1: "s_include_in_reports (p_schema p1) = s_include_in_reports (p_schema p)"
    by blast
  let ?cnt = "cnt(a := Suc (cnt a))"
  have ap1: "\<forall>b \<in> A. applied (p_schema p1) (h0 b) (?cnt b) (h1 b)"
  proof
    fix b assume b: "b \<in> A"
    show "applied (p_schema p1) (h0 b) (?cnt b) (h1 b)"
    proof (cases "b = a")
      case True
      with apx h1 show ?thesis by simp
    next
      case False
      from Cons.prems(3) b have "applied (p_schema p) (h0 b) (cnt b) (h b)" by blast
      then have "applied (p_schema p1) (h0 b) (cnt b) (h b)"
        using sub1 by (rule applied_mono)
      with False h1 show ?thesis by simp
    qed
  qed
  from Cons.IH [OF sub inv1 ap1 rest]
  have inv': "same_ref_same_name (p_schema p')"
    and ap': "\<forall>b \<in> A. applied (p_schema p') (h0 b) (?cnt b + count_list as b) (h' b)"
    and rules': "s_rules (p_schema p') = s_rules (p_schema p1) @ as"
    and name': "s_name (p_schema p') = s_name (p_schema p1)"
    and inc': "s_include_in_reports (p_schema p') = s_include_in_reports (p_schema p1)"
    by blast+
  have "\<forall>b \<in> A. applied (p_schema p') (h0 b) (cnt b + count_list (a # as) b) (h' b)"
  proof
    fix b assume b: "b \<in> A"
    have "?cnt b + count_list as b = cnt b + count_list (a # as) b" by simp
    with ap' b show "applied (p_schema p') (h0 b) (cnt b + count_list (a # as) b) (h' b)"
      by metis
  qed
  with inv' rules' rules1 name' name1 inc' inc1 show ?case by simp
qed

subsection \<open>Deriving the spec again\<close>

lemma wf_schema_rule_retarget:
  assumes st: "stable_rule (PDict d)" and nc: "\<not> is_categorize d"
  shows "wf_schema_rule (PDict (dset d ''to'' t))"
  using retarget(2,4) [OF st nc, where t = t] by (simp add: wf_schema_rule_def)

lemma spec_rule_val_retarget:
  assumes st: "stable_rule (PDict d)" and nc: "\<not> is_categorize d"
    and x: "x = PDict (dset d ''to'' t) \<or> x = PDict (wrapped (dset d ''to'' t))"
  shows "wf_schema_rule x" and "rule_ok x"
    and "spec_rule_val p x = PDict (dset d ''to'' (get_name_by_ref_id p t))"
proof -
  let ?y = "dset d ''to'' t"
  note r = retarget(1,2) [OF st nc, where t = t]
  note wf = wf_schema_rule_retarget [OF st nc, where t = t]
  note res = retarget(5) [OF st nc, where t = t and p = p]
  note sr = spec_rule_wrapped [OF r, where p = p]
  from x show "wf_schema_rule x"
    using wf wf_schema_rule_wrapped [OF wf] by auto
  from x show "rule_ok x"
    using scalar_rule_ok [OF r(1)] rule_ok_wrapped [OF r] by auto
  from x show "spec_rule_val p x = PDict (dset d ''to'' (get_name_by_ref_id p t))"
    using sr res by (auto simp: spec_rule_val_def)
qed

lemma passes_chain:
  assumes st: "stable_rule (PDict d)" and nc: "\<not> is_categorize d"
    and inv: "same_ref_same_name (p_schema p)"
  shows "chain (p_schema p) m t (group_name d) \<Longrightarrow>
         x = PDict (dset d ''to'' t) \<or> x = PDict (wrapped (dset d ''to'' t)) \<Longrightarrow>
         (\<forall>k < m. wf_schema_rule ((spec_rule_val p ^^ k) x)
                  \<and> rule_ok ((spec_rule_val p ^^ k) x))
         \<and> (0 < m \<longrightarrow> (spec_rule_val p ^^ m) x = PDict d)"
proof (induction m arbitrary: t x)
  case 0
  show ?case by simp
next
  case (Suc m)
  let ?f = "spec_rule_val p"
  from Suc.prems(1) obtain r n where t: "t = PStr r" and reg: "registered (p_schema p) r n"
    and ch: "chain (p_schema p) m n (group_name d)"
    by auto
  have name: "get_name_by_ref_id p t = n"
    unfolding t using inv reg by (rule resolve_registered)
  note here = spec_rule_val_retarget(1,2) [OF st nc Suc.prems(2)]
  note pass = spec_rule_val_retarget(3) [OF st nc Suc.prems(2), where p = p]
  let ?x1 = "PDict (dset d ''to'' n)"
  have fx: "?f x = ?x1"
    using pass by (simp add: name)
  have x1: "?x1 = PDict (dset d ''to'' n) \<or> ?x1 = PDict (wrapped (dset d ''to'' n))"
    by simp
  note ih = Suc.IH [OF ch x1]
  have iter: "(?f ^^ Suc k) x = (?f ^^ k) ?x1" for k
    by (simp add: funpow_swap1 fx)
  have all: "\<forall>k < Suc m. wf_schema_rule ((?f ^^ k) x) \<and> rule_ok ((?f ^^ k) x)"
  proof (intro allI impI)
    fix k assume k: "k < Suc m"
    show "wf_schema_rule ((?f ^^ k) x) \<and> rule_ok ((?f ^^ k) x)"
    proof (cases k)
      case 0
      with here show ?thesis by simp
    next
      case (Suc j)
      with k have "j < m" by simp
      with ih have "wf_schema_rule ((?f ^^ j) ?x1) \<and> rule_ok ((?f ^^ j) ?x1)" by blast
      then show ?thesis unfolding Suc iter .
    qed
  qed
  have last: "(?f ^^ Suc m) x = PDict d"
  proof (cases m)
    case 0
    with ch have "n = group_name d" by simp
    then have "?x1 = PDict d" by (simp add: retarget(6) [OF st nc])
    with 0 show ?thesis unfolding iter by simp
  next
    case (Suc j)
    with ih show ?thesis unfolding iter by simp
  qed
  from all last show ?case by blast
qed

lemma categorize_form_round_trip:
  assumes st: "stable_rule (PDict d)" and r: "r \<noteq> []"
    and name: "get_name_by_ref_id p (PStr r) = group_name d"
  shows "wf_schema_rule (PDict (wrapped (categorize_form r d)))"
    and "rule_ok (PDict (wrapped (categorize_form r d)))"
    and "rule_tuple (spec_rule_val p (PDict (wrapped (categorize_form r d)))) = rule_tuple (PDict d)"
proof -
  let ?z = "categorize_form r d"
  note parts = stable_parts [OF st]
  have ref: "dget ?z ''ref_id'' = PStr r"
    by (simp add: categorize_form_def dset_def ddel_def dget_delete dget_update_same)
  have wfc: "wf_condition ?z"
    using parts(2)
    by (simp add: categorize_form_def dset_def ddel_def wf_condition_update wf_condition_delete)
  have sc: "scalar_rule (PDict ?z)"
    using parts(1)
    by (simp add: categorize_form_def dset_def ddel_def scalar_rule_update scalar_rule_delete
          keys_simps)
  have wf: "wf_schema_rule (PDict ?z)"
    using r wfc by (simp add: wf_schema_rule_def ref)
  show "wf_schema_rule (PDict (wrapped ?z))"
    by (rule wf_schema_rule_wrapped [OF wf])
  show "rule_ok (PDict (wrapped ?z))"
    by (rule rule_ok_wrapped [OF sc wfc])
  have reference: "reference ?z = PStr r"
    using r by (simp add: reference_def ref)
  have res: "resolved p ?z
      = AList.update ''to'' (group_name d)
          (AList.delete ''ref_id'' (AList.update ''to'' (PStr r) ?z))"
    using r by (simp add: resolved_def renamed_def reference ref name dset_def ddel_def)
  have "rule_tuple (PDict (resolved p ?z)) = rule_tuple (PDict d)"
    using parts(3)
    by (simp only: res)
       (simp add: rule_tuple_def group_name_def categorize_form_def dset_def ddel_def
          dget_update dget_delete dget_update_same)
  then show "rule_tuple (spec_rule_val p (PDict (wrapped ?z))) = rule_tuple (PDict d)"
    by (simp add: spec_rule_val_def spec_rule_wrapped(1) [OF sc wfc])
qed

lemma passes_applied:
  assumes st: "stable_rule b" and inv: "same_ref_same_name (p_schema p)"
    and ap: "applied (p_schema p) b (Suc j) x"
  shows "(\<forall>k < Suc j. wf_schema_rule ((spec_rule_val p ^^ k) x)
                      \<and> rule_ok ((spec_rule_val p ^^ k) x))
       \<and> rule_tuple ((spec_rule_val p ^^ Suc j) x) = rule_tuple b"
proof -
  from st obtain d where b: "b = PDict d" by (cases b) (simp_all add: stable_rule_def)
  from st b have std: "stable_rule (PDict d)" by simp
  show ?thesis
  proof (cases "is_categorize d")
    case True
    with ap b obtain r where j: "j = 0" and r: "r \<noteq> []"
      and reg: "registered (p_schema p) r (group_name d)"
      and x: "x = PDict (wrapped (categorize_form r d))"
      by (auto simp: applied_def)
    have name: "get_name_by_ref_id p (PStr r) = group_name d"
      using inv reg by (rule resolve_registered)
    from categorize_form_round_trip [OF std r name] show ?thesis
      by (simp add: j x b)
  next
    case False
    with ap b obtain r where ch: "chain (p_schema p) (Suc j) (PStr r) (group_name d)"
      and x: "x = PDict (wrapped (dset d ''to'' (PStr r)))"
      by (auto simp: applied_def)
    from x have x': "x = PDict (dset d ''to'' (PStr r)) \<or> x = PDict (wrapped (dset d ''to'' (PStr r)))"
      by simp
    from passes_chain [OF std False inv ch x'] show ?thesis
      by (simp add: b)
  qed
qed

subsection \<open>The round trip\<close>

text \<open>
  C1, amended. For a spec whose rules are stable and translate without error, and a schema
  in which groups outside Other with the same ref_id have the same name (as when ref_ids
  are unique): the derivation from the schema that the application leaves succeeds, and
  the rules of the derived spec have, as a set, the tuples of type, group name, field,
  tag_field and condition that the rule objects of the spec had before the application.
\<close>

theorem round_trip_stable:
  assumes st: "\<forall>a \<in> set (sp_rules sp). stable_rule (h a)"
    and inv: "same_ref_same_name (p_schema p)"
  shows "round_trip_holds sp (h, p)"
proof (cases "schema_from_spec sp (h, p)")
  case (Inl e)
  then show ?thesis by (simp add: round_trip_holds_def)
next
  case (Inr hp')
  obtain h' p' where hp': "hp' = (h', p')" by (cases hp')
  let ?as = "sp_rules sp"
  let ?p1 = "set_name (sp_name sp) p"
  let ?p2 = "case sp_include_in_reports sp of
               None \<Rightarrow> ?p1
             | Some v \<Rightarrow> if truthy v then set_include_in_reports v ?p1 else ?p1"
  let ?p3 = "set_rules [] ?p2"
  let ?f = "spec_rule_val p'"
  have gi: "group_items (p_schema ?p3) = group_items (p_schema p)"
    by (simp add: group_items_reset split: option.splits)
  have inv3: "same_ref_same_name (p_schema ?p3)"
    using inv by (simp only: same_ref_same_name_cong [OF gi])
  have rules3: "s_rules (p_schema ?p3) = []"
    by (simp add: set_rules_def)
  have run: "spec_rules_to_schema ?as (h, ?p3) = Inr (h', p')"
    using Inr hp' by (simp add: schema_from_spec_def Let_def)
  have ap0: "\<forall>a \<in> set ?as. applied (p_schema ?p3) (h a) ((\<lambda>_. 0) a) (h a)"
  proof
    fix a assume "a \<in> set ?as"
    with st have "stable_rule (h a)" by blast
    then show "applied (p_schema ?p3) (h a) ((\<lambda>_. 0) a) (h a)"
      by (cases "h a") (simp_all add: stable_rule_def applied_def)
  qed
  from spec_rules_to_schema_applied [OF st subset_refl inv3 ap0 run]
  have inv': "same_ref_same_name (p_schema p')"
    and ap': "\<forall>a \<in> set ?as. applied (p_schema p') (h a) (0 + count_list ?as a) (h' a)"
    and rules': "s_rules (p_schema p') = s_rules (p_schema ?p3) @ ?as"
    by blast+
  have rs: "s_rules (p_schema p') = ?as"
    using rules' rules3 by simp
  have each: "(\<forall>k < count_list ?as a. wf_schema_rule ((?f ^^ k) (h' a))
                                       \<and> rule_ok ((?f ^^ k) (h' a)))
      \<and> rule_tuple ((?f ^^ count_list ?as a) (h' a)) = rule_tuple (h a)"
    if a: "a \<in> set ?as" for a
  proof -
    from count_list_pos [OF a] obtain j where j: "count_list ?as a = Suc j" ..
    from st a have sta: "stable_rule (h a)" by blast
    from ap' a have "applied (p_schema p') (h a) (0 + count_list ?as a) (h' a)" by blast
    then have "applied (p_schema p') (h a) (Suc j) (h' a)" by (simp only: j add_0)
    from passes_applied [OF sta inv' this] show ?thesis
      unfolding j .
  qed
  have "rules_to_spec_form p' ?as h' = Inr (\<lambda>a. (?f ^^ count_list ?as a) (h' a))"
    by (rule rules_to_spec_form_passes) (use each in blast)
  then have derive: "spec_from_schema h' p'
      = Inr \<lparr> sd_name = s_name (p_schema p'),
              sd_include_in_reports = s_include_in_reports (p_schema p'),
              sd_rules = map (\<lambda>a. (?f ^^ count_list ?as a) (h' a)) ?as \<rparr>"
    by (simp add: spec_from_schema_def rs)
  have tuples: "map rule_tuple (map (\<lambda>a. (?f ^^ count_list ?as a) (h' a)) ?as)
      = map rule_tuple (map h ?as)"
    using each by simp
  from tuples
  have "set (map rule_tuple (map (\<lambda>a. (?f ^^ count_list ?as a) (h' a)) ?as))
      = set (map rule_tuple (map h ?as))"
    by (rule arg_cong)
  then show ?thesis
    by (simp add: round_trip_holds_def Inr hp' derive)
qed

text \<open>
  A spec of three rules on the default schema: a filter rule with a clause, whose object
  stands at the first and at the last position, and a legacy categorize rule, capitalised,
  with its name under \<open>ref_id\<close>. The filter rule is translated twice: the group \<open>prod\<close>
  gets the ref_id 101, and a group named \<open>101\<close> gets the ref_id 103.
\<close>

definition three_rule_store :: store where
  "three_rule_store =
     (\<lambda>_. PNone)
       (0 := PDict [(''type'', PStr ''filter''), (''field'', PStr ''env''), (''to'', PStr ''prod''),
                    (''condition'',
                      PDict [(''clauses'',
                               PList [PDict [(''tag_field'', PStr ''env''),
                                             (''op'', PStr ''=''), (''val'', PStr ''prod'')]])])],
        1 := PDict [(''type'', PStr ''Categorize''), (''field'', PStr ''team''),
                    (''to'', PStr ''''), (''ref_id'', PStr ''Platform'')])"

definition three_rule_spec :: spec where
  "three_rule_spec = \<lparr> sp_name = PStr ''Env'', sp_include_in_reports = None, sp_rules = [0, 1, 0] \<rparr>"

lemmas stable_defs =
  stable_rule_def is_categorize_def is_filter_def group_name_def exact_name_def scalar_rule_def
  scalar_items_def entry_scalar_def clause_scalar_def wf_condition_def clauses_of_def

theorem round_trip_stable_witness:
  "round_trip_holds three_rule_spec (three_rule_store, init)
   \<and> (case schema_from_spec three_rule_spec (three_rule_store, init) of
        Inl e \<Rightarrow> []
      | Inr hp' \<Rightarrow> map (fst hp') (s_rules (p_schema (snd hp'))))
       = [PDict [(''type'', PStr ''filter''), (''field'', PList [PStr ''env'']),
                 (''to'', PStr ''103''),
                 (''condition'',
                   PDict [(''clauses'',
                            PList [PDict [(''tag_field'', PList [PStr ''env'']),
                                          (''op'', PStr ''=''), (''val'', PStr ''prod'')]])])],
          PDict [(''type'', PStr ''Categorize''), (''field'', PList [PStr ''team'']),
                 (''ref_id'', PStr ''102'')],
          PDict [(''type'', PStr ''filter''), (''field'', PList [PStr ''env'']),
                 (''to'', PStr ''103''),
                 (''condition'',
                   PDict [(''clauses'',
                            PList [PDict [(''tag_field'', PList [PStr ''env'']),
                                          (''op'', PStr ''=''), (''val'', PStr ''prod'')]])])]]
   \<and> map rule_tuple (map three_rule_store (sp_rules three_rule_spec))
       = [(PStr ''filter'', PStr ''prod'', PStr ''env'', PNone,
           PDict [(''clauses'',
                    PList [PDict [(''tag_field'', PStr ''env''),
                                  (''op'', PStr ''=''), (''val'', PStr ''prod'')]])]),
          (PStr ''Categorize'', PStr ''Platform'', PStr ''team'', PNone, PNone),
          (PStr ''filter'', PStr ''prod'', PStr ''env'', PNone,
           PDict [(''clauses'',
                    PList [PDict [(''tag_field'', PStr ''env''),
                                  (''op'', PStr ''=''), (''val'', PStr ''prod'')]])])]"
proof -
  have st: "\<forall>a \<in> set (sp_rules three_rule_spec). stable_rule (three_rule_store a)"
    by (simp add: three_rule_spec_def three_rule_store_def stable_defs py_eval)
  have inv: "same_ref_same_name (p_schema init)"
    by (simp add: same_ref_same_name_def init_def empty_schema_def group_items_def
          constant_types_def)
  have tuples: "map rule_tuple (map three_rule_store (sp_rules three_rule_spec))
       = [(PStr ''filter'', PStr ''prod'', PStr ''env'', PNone,
           PDict [(''clauses'',
                    PList [PDict [(''tag_field'', PStr ''env''),
                                  (''op'', PStr ''=''), (''val'', PStr ''prod'')]])]),
          (PStr ''Categorize'', PStr ''Platform'', PStr ''team'', PNone, PNone),
          (PStr ''filter'', PStr ''prod'', PStr ''env'', PNone,
           PDict [(''clauses'',
                    PList [PDict [(''tag_field'', PStr ''env''),
                                  (''op'', PStr ''=''), (''val'', PStr ''prod'')]])])]"
    by (simp add: three_rule_spec_def three_rule_store_def rule_tuple_def group_name_def py_eval)
  have applied: "(case schema_from_spec three_rule_spec (three_rule_store, init) of
        Inl e \<Rightarrow> []
      | Inr hp' \<Rightarrow> map (fst hp') (s_rules (p_schema (snd hp'))))
       = [PDict [(''type'', PStr ''filter''), (''field'', PList [PStr ''env'']),
                 (''to'', PStr ''103''),
                 (''condition'',
                   PDict [(''clauses'',
                            PList [PDict [(''tag_field'', PList [PStr ''env'']),
                                          (''op'', PStr ''=''), (''val'', PStr ''prod'')]])])],
          PDict [(''type'', PStr ''Categorize''), (''field'', PList [PStr ''team'']),
                 (''ref_id'', PStr ''102'')],
          PDict [(''type'', PStr ''filter''), (''field'', PList [PStr ''env'']),
                 (''to'', PStr ''103''),
                 (''condition'',
                   PDict [(''clauses'',
                            PList [PDict [(''tag_field'', PList [PStr ''env'']),
                                          (''op'', PStr ''=''), (''val'', PStr ''prod'')]])])]]"
    by (simp add: three_rule_spec_def three_rule_store_def init_def empty_schema_def
          translate_defs get_new_ref_id_free str_int_101 str_int_102 str_int_103 py_eval)
  from round_trip_stable [OF st inv] tuples applied show ?thesis by simp
qed

text \<open>
  A rule of type \<open>search\<close> translates without error and comes back with type \<open>filter\<close>,
  so the round trip as stated for every spec that translates does not hold.
\<close>

definition search_store :: store where
  "search_store =
     (\<lambda>_. PNone)(0 := PDict [(''type'', PStr ''search''), (''field'', PStr ''env''),
                               (''to'', PStr ''prod'')])"

theorem round_trip_search_counterexample:
  "\<not> round_trip_holds \<lparr> sp_name = PStr ''Env'', sp_include_in_reports = None, sp_rules = [0] \<rparr>
        (search_store, init)"
  by (simp add: search_store_def init_def empty_schema_def derive_defs over_condition_def
        translate_defs get_new_ref_id_free str_int_101 py_eval)

end
